theory Spec2Isabelle
  imports Complex_Main "HOL-Library.Sublist"
begin

section \<open>Python strings\<close>

text \<open>
  A Python \<open>str\<close> is a sequence of Unicode code points, so a string is a list of
  natural numbers here and \<open>length\<close> counts what Python's \<open>len\<close> counts.
  \<open>lit\<close> writes a literal of the source: \<open>lit ''commits/''\<close> is \<open>"commits/"\<close>.
\<close>

type_synonym pystr = "nat list"

definition lit :: "string \<Rightarrow> pystr" where
  "lit s = map of_char s"

text \<open>
  \<open>s.split(sep)\<close> for a one-character \<open>sep\<close>, and \<open>re.split("[...]", s)\<close> for a
  character class: one token per gap between separators, empty tokens kept, so the
  result is never the empty list (the unreachable \<open>[]\<close> branch returns the token alone).
\<close>

fun split_on :: "(nat \<Rightarrow> bool) \<Rightarrow> pystr \<Rightarrow> pystr list" where
  "split_on sep [] = [[]]"
| "split_on sep (c # cs) =
     (if sep c then [] # split_on sep cs
      else (case split_on sep cs of
              [] \<Rightarrow> [[c]]
            | t # ts \<Rightarrow> (c # t) # ts))"

definition str_split :: "nat \<Rightarrow> pystr \<Rightarrow> pystr list" where
  "str_split sep s = split_on (\<lambda>c. c = sep) s"

text \<open>\<open>sep.join(words)\<close>.\<close>

fun join :: "pystr \<Rightarrow> pystr list \<Rightarrow> pystr" where
  "join sep [] = []"
| "join sep [w] = w"
| "join sep (w # v # ws) = w @ sep @ join sep (v # ws)"

text \<open>
  \<open>s.replace(old, new)\<close>: one pass from the left, non-overlapping occurrences, the
  replacement text is not scanned again. For the empty \<open>old\<close> Python puts \<open>new\<close>
  before every character and at the end.
\<close>

fun replace_scan :: "pystr \<Rightarrow> pystr \<Rightarrow> pystr \<Rightarrow> pystr" where
  "replace_scan old new [] = []"
| "replace_scan old new (c # cs) =
     (if prefix old (c # cs) then new @ replace_scan old new (drop (length old - 1) cs)
      else c # replace_scan old new cs)"

definition replace :: "pystr \<Rightarrow> pystr \<Rightarrow> pystr \<Rightarrow> pystr" where
  "replace old new s =
     (if old = [] then new @ concat (map (\<lambda>c. c # new) s) else replace_scan old new s)"

text \<open>\<open>sub in s\<close> on strings: \<open>sub\<close> occurs in \<open>s\<close> as a contiguous run.\<close>

fun contains :: "pystr \<Rightarrow> pystr \<Rightarrow> bool" where
  "contains sub [] = (sub = [])"
| "contains sub (c # cs) = (prefix sub (c # cs) \<or> contains sub cs)"

text \<open>
  Case mapping. Python maps case by the Unicode tables; the model has the ASCII part of
  them (\<open>A\<close>..\<open>Z\<close> are 65..90, \<open>a\<close>..\<open>z\<close> are 97..122) and leaves every other code
  point alone, so the statements about case below are about ASCII input, which is what
  the parameter store allows in a parameter name.

  \<open>s.title()\<close> walks the string with one flag, whether the previous character was
  cased: a cased character after a cased one is lowered, any other is put in upper case.
\<close>

definition ascii :: "pystr \<Rightarrow> bool" where
  "ascii s = (\<forall>c \<in> set s. c < 128)"

definition is_upper :: "nat \<Rightarrow> bool" where
  "is_upper c = (65 \<le> c \<and> c \<le> 90)"

definition is_lower :: "nat \<Rightarrow> bool" where
  "is_lower c = (97 \<le> c \<and> c \<le> 122)"

definition is_cased :: "nat \<Rightarrow> bool" where
  "is_cased c = (is_upper c \<or> is_lower c)"

definition to_lower :: "nat \<Rightarrow> nat" where
  "to_lower c = (if is_upper c then c + 32 else c)"

definition to_upper :: "nat \<Rightarrow> nat" where
  "to_upper c = (if is_lower c then c - 32 else c)"

definition lower :: "pystr \<Rightarrow> pystr" where
  "lower s = map to_lower s"

fun title_from :: "bool \<Rightarrow> pystr \<Rightarrow> pystr" where
  "title_from prev [] = []"
| "title_from prev (c # cs) =
     (if prev then to_lower c else to_upper c) # title_from (is_cased c) cs"

definition title :: "pystr \<Rightarrow> pystr" where
  "title s = title_from False s"

section \<open>Fixture paths: \<open>generate_temp_file_name\<close>\<close>

text \<open>
  \<open>template.split(".")\<close>, \<open>pop()\<close> for the extension, the rest joined again with
  dots for the base name; \<open>re.split("[-_. ]", ...)\<close> for the words.
\<close>

definition is_word_sep :: "nat \<Rightarrow> bool" where
  "is_word_sep c = (c \<in> set (lit ''-_. ''))"

definition generate_temp_file_name :: "pystr \<Rightarrow> pystr \<Rightarrow> pystr \<Rightarrow> pystr" where
  "generate_temp_file_name source secret_type template =
     (let template_components = str_split 46 template;
          extension = last template_components;
          file_name = join (lit ''.'') (butlast template_components);
          temp_file_words =
            split_on is_word_sep (lit ''commit_'' @ source @ lit ''_'' @ secret_type);
          temp_file_name =
            (if extension = lit ''java''
             then replace (lit '' '') [] (title (join (lit '' '') temp_file_words)) @ file_name
             else lower (join (lit ''_'') temp_file_words) @ lit ''_'' @ file_name)
      in lit ''commits/'' @ temp_file_name @ lit ''.'' @ extension)"

text \<open>
  The path as the specification words it, for comparison with the function above:
  the words of \<open>commit_<source>_<secretType>\<close>; for a \<open>java\<close> template each word
  in title case and the words put together, otherwise the words in lower case joined
  with underscores and one more underscore; then the base name of the template, a dot
  and its extension, under \<open>commits/\<close>. Title case is stated by position: a
  character that follows a cased character is lowered, any other is put in upper case.
  The extension is the text after the last dot of the template name (all of it when
  there is no dot) and the base name the text before that dot.
\<close>

definition title_cased :: "pystr \<Rightarrow> pystr" where
  "title_cased w =
     map (\<lambda>i. if 0 < i \<and> is_cased (w ! (i - 1)) then to_lower (w ! i) else to_upper (w ! i))
       [0..<length w]"

definition template_extension :: "pystr \<Rightarrow> pystr" where
  "template_extension t = rev (takeWhile (\<lambda>c. c \<noteq> 46) (rev t))"

definition template_base_name :: "pystr \<Rightarrow> pystr" where
  "template_base_name t = rev (drop 1 (dropWhile (\<lambda>c. c \<noteq> 46) (rev t)))"

definition fixture_path_spec :: "pystr \<Rightarrow> pystr \<Rightarrow> pystr \<Rightarrow> pystr" where
  "fixture_path_spec source secret_type template =
     (let tokens = split_on is_word_sep (lit ''commit_'' @ source @ lit ''_'' @ secret_type)
      in lit ''commits/''
         @ (if template_extension template = lit ''java''
            then concat (map title_cased tokens) @ template_base_name template
            else join (lit ''_'') (map lower tokens) @ lit ''_'' @ template_base_name template)
         @ lit ''.'' @ template_extension template)"

section \<open>Fixture content: the rendering in \<open>_populate_templates\<close>\<close>

text \<open>
  \<open>value.encode("unicode_escape").decode()\<close>: the codec writes a printable ASCII
  character as itself (the backslash doubled), tab, line feed and carriage return as
  \<open>\t\<close>, \<open>\n\<close>, \<open>\r\<close>, any other code point below 256 as \<open>\xhh\<close>, below 65536 as
  \<open>\uhhhh\<close> and above as \<open>\Uhhhhhhhh\<close>, with lower-case hexadecimal digits; the
  bytes it produces are ASCII, so decoding them gives the same code points.
  Code points: 92 is the backslash, 34 the double quote, 37 the percent sign.
\<close>

definition hex_digit :: "nat \<Rightarrow> nat" where
  "hex_digit d = (if d < 10 then 48 + d else 87 + d)"

definition hex_digits :: "nat \<Rightarrow> nat \<Rightarrow> pystr" where
  "hex_digits k n = map (\<lambda>i. hex_digit ((n div 16 ^ i) mod 16)) (rev [0..<k])"

definition escape_char :: "nat \<Rightarrow> pystr" where
  "escape_char c =
     (if c < 256 then
        (if 32 \<le> c \<and> c < 127 then (if c \<noteq> 92 then [c] else [92, 92])
         else if c = 9 then [92, 116]
         else if c = 10 then [92, 110]
         else if c = 13 then [92, 114]
         else [92, 120] @ hex_digits 2 c)
      else if c < 65536 then [92, 117] @ hex_digits 4 c
      else [92, 85] @ hex_digits 8 c)"

definition unicode_escape :: "pystr \<Rightarrow> pystr" where
  "unicode_escape s = concat (map escape_char s)"

definition multi_line :: "pystr \<Rightarrow> pystr" where
  "multi_line v = replace [34] [92, 34] v"

definition single_line :: "pystr \<Rightarrow> pystr" where
  "single_line v = replace [34] [92, 34] (unicode_escape v)"

definition single_line_placeholder :: pystr where
  "single_line_placeholder = lit ''%SINGLE_LINE_VARIABLE%''"

definition multi_line_placeholder :: pystr where
  "multi_line_placeholder = lit ''%MULTI_LINE_VARIABLE%''"

definition render :: "pystr \<Rightarrow> pystr \<Rightarrow> pystr" where
  "render content v =
     (let code_content = replace single_line_placeholder (single_line v) content
      in replace multi_line_placeholder (multi_line v) code_content)"

section \<open>The working tree\<close>

text \<open>
  The files of the working directory, as pairs of a path and a content, in the order
  in which the directory lists them; only regular files are modelled, and
  \<open>commits/\<close> exists. \<open>glob.glob("commits/*")\<close> lists the entries directly inside
  the directory whose name does not start with a dot (47 is the slash, 46 the dot).
  \<open>os.remove\<close> raises \<open>FileNotFoundError\<close> for a path that is not there;
  \<open>open(path, "w")\<close> creates the file or overwrites it.
\<close>

datatype exn =
    HookExecutionError
  | GitCommandError
  | FileNotFoundError
  | IndexError
  | KeyError
  | ZeroDivisionError
  | OtherException

type_synonym fs = "(pystr \<times> pystr) list"

definition listed_in :: "pystr \<Rightarrow> pystr \<Rightarrow> bool" where
  "listed_in dir p =
     (prefix (dir @ lit ''/'') p \<and>
      (let name = drop (length dir + 1) p
       in name \<noteq> [] \<and> 47 \<notin> set name \<and> hd name \<noteq> 46))"

definition glob_star :: "pystr \<Rightarrow> fs \<Rightarrow> pystr list" where
  "glob_star dir files = filter (listed_in dir) (map fst files)"

definition os_remove :: "pystr \<Rightarrow> fs \<Rightarrow> exn + fs" where
  "os_remove p files =
     (if p \<in> fst ` set files then Inr (filter (\<lambda>f. fst f \<noteq> p) files)
      else Inl FileNotFoundError)"

definition write_file :: "pystr \<Rightarrow> pystr \<Rightarrow> fs \<Rightarrow> fs" where
  "write_file p content files =
     (if p \<in> fst ` set files
      then map (\<lambda>f. if fst f = p then (p, content) else f) files
      else files @ [(p, content)])"

text \<open>\<open>cleanup\<close>: the loop over the listing, then the method; a removal that raises
  leaves the files removed before it removed.\<close>

fun cleanup_loop :: "pystr list \<Rightarrow> fs \<Rightarrow> (exn + unit) \<times> fs" where
  "cleanup_loop [] files = (Inr (), files)"
| "cleanup_loop (example # rest) files =
     (if \<not> contains (lit ''README.md'') example
      then (case os_remove example files of
              Inl x \<Rightarrow> (Inl x, files)
            | Inr files' \<Rightarrow> cleanup_loop rest files')
      else cleanup_loop rest files)"

definition cleanup :: "fs \<Rightarrow> (exn + unit) \<times> fs" where
  "cleanup files = cleanup_loop (glob_star (lit ''commits'') files) files"

section \<open>The repository and the run\<close>

text \<open>
  Every call into the version-control library is a \<open>git_call\<close>. What a call does
  to the repository is outside the program; the environment says, from the events
  so far, whether the call raises. The state keeps the events of the run (calls with
  their outcome, and log lines), the fixture paths in the index (\<open>index.add\<close> puts a
  path in, \<open>index.remove\<close> takes it out, a hard reset empties it, a call that raises
  changes nothing) and the working tree.
\<close>

text \<open>
  The calls, in the order in which the program first makes them:
  \<open>git.repo.base.Repo("..")\<close>, \<open>repo.head.object.hexsha\<close>,
  \<open>repo.create_head(name)\<close>, \<open>branch.checkout()\<close>,
  \<open>index.remove([path], working_tree=True)\<close>, \<open>index.commit(message)\<close>,
  \<open>repo.active_branch.name\<close>, \<open>index.add([path])\<close>, \<open>repo.commit(rev)\<close>,
  \<open>repo.active_branch.commit = ...\<close>, \<open>index.remove([path])\<close>,
  \<open>repo.git.reset("--hard", rev)\<close>, \<open>repo.head.reference = ...\<close> and
  \<open>repo.delete_head(name, force=True)\<close>.
\<close>

datatype git_call =
    Repo_open
  | Head_hexsha
  | Create_head pystr
  | Checkout pystr
  | Index_remove_working_tree pystr
  | Index_commit pystr
  | Active_branch_name
  | Index_add pystr
  | Rev_parse pystr
  | Set_active_branch_commit pystr
  | Index_remove pystr
  | Reset_hard pystr
  | Set_head_reference pystr
  | Delete_head pystr

datatype event =
    Git git_call "exn option"
  | Log_error pystr
  | Log_debug pystr

record state =
  files :: fs
  index :: "pystr list"
  events :: "event list"

record env =
  git :: "event list \<Rightarrow> git_call \<Rightarrow> exn option"
  head_hexsha :: pystr
  utc_timestamp :: pystr
  aws_key_present :: bool
  ssm_params :: "(pystr \<times> pystr) list"

text \<open>
  The environment of a run: the repository's answers, the commit id of the head when
  the run starts, the time stamp \<open>datetime.utcnow()\<close> gives formatted as
  \<open>%Y-%m-%d_%H%M\<close>, whether \<open>AWS_ACCESS_KEY_ID\<close> is in the process environment,
  and the parameters (name and value) that \<open>get_paged_ssm_params\<close> returned. What
  the program prints is not part of the state. A computation takes the state and gives
  either an exception or a value, with the state as it is then.
\<close>

type_synonym 'a run = "state \<Rightarrow> (exn + 'a) \<times> state"

definition return :: "'a \<Rightarrow> 'a run" where
  "return a s = (Inr a, s)"

definition bind :: "'a run \<Rightarrow> ('a \<Rightarrow> 'b run) \<Rightarrow> 'b run" where
  "bind m f s = (case m s of (Inl x, s') \<Rightarrow> (Inl x, s') | (Inr a, s') \<Rightarrow> f a s')"

definition seq :: "unit run \<Rightarrow> 'b run \<Rightarrow> 'b run" where
  "seq m n = bind m (\<lambda>_. n)"

fun index_effect :: "git_call \<Rightarrow> pystr list \<Rightarrow> pystr list" where
  "index_effect (Index_add p) ix = (if p \<in> set ix then ix else ix @ [p])"
| "index_effect (Index_remove p) ix = removeAll p ix"
| "index_effect (Reset_hard r) ix = []"
| "index_effect c ix = ix"

definition call :: "env \<Rightarrow> git_call \<Rightarrow> unit run" where
  "call e c s =
     (case git e (events s) c of
        None \<Rightarrow> (Inr (), s\<lparr>index := index_effect c (index s),
                            events := events s @ [Git c None]\<rparr>)
      | Some x \<Rightarrow> (Inl x, s\<lparr>events := events s @ [Git c (Some x)]\<rparr>))"

definition log_error :: "pystr \<Rightarrow> unit run" where
  "log_error msg s = (Inr (), s\<lparr>events := events s @ [Log_error msg]\<rparr>)"

definition log_debug :: "pystr \<Rightarrow> unit run" where
  "log_debug msg s = (Inr (), s\<lparr>events := events s @ [Log_debug msg]\<rparr>)"

text \<open>\<open>str(err)\<close>: the text of an exception belongs to the library; its class name
  stands for it.\<close>

fun exn_str :: "exn \<Rightarrow> pystr" where
  "exn_str HookExecutionError = lit ''HookExecutionError''"
| "exn_str GitCommandError = lit ''GitCommandError''"
| "exn_str FileNotFoundError = lit ''FileNotFoundError''"
| "exn_str IndexError = lit ''IndexError''"
| "exn_str KeyError = lit ''KeyError''"
| "exn_str ZeroDivisionError = lit ''ZeroDivisionError''"
| "exn_str OtherException = lit ''Exception''"

subsection \<open>Fixtures\<close>

datatype outcome = Passed | Failed

record test =
  source :: pystr
  secret_type :: pystr
  test_file :: pystr
  file_type :: pystr
  detected :: "bool option"
  outcome :: "outcome option"

text \<open>
  \<open>_populate_templates\<close>: one fixture for each template, in the order of the
  dictionary; the file is written and the fixture appended to \<open>self.tests\<close>.
  \<open>detected\<close> and \<open>outcome\<close> are keys the dictionary does not have yet.
\<close>

fun populate_templates ::
  "(pystr \<times> pystr) list \<Rightarrow> pystr \<Rightarrow> pystr \<Rightarrow> pystr \<Rightarrow> test list \<Rightarrow> test list run" where
  "populate_templates [] src sty v tests s = (Inr tests, s)"
| "populate_templates ((template, content) # rest) src sty v tests s =
     (let commit_file = generate_temp_file_name src sty template;
          extension = last (str_split 46 commit_file);
          code_content = render content v
      in populate_templates rest src sty v
           (tests @ [\<lparr>source = src, secret_type = sty, test_file = commit_file,
                      file_type = extension, detected = None, outcome = None\<rparr>])
           (s\<lparr>files := write_file commit_file code_content (files s)\<rparr>))"

text \<open>
  \<open>_build_commitable_temp_files\<close>, from the parameters the store returned (name and
  value): the last two components of the name are the secret type and the source; the
  second \<open>pop()\<close> raises \<open>IndexError\<close> when the name has no slash.
\<close>

fun build_loop ::
  "(pystr \<times> pystr) list \<Rightarrow> (pystr \<times> pystr) list \<Rightarrow> test list \<Rightarrow> test list run" where
  "build_loop templates [] tests s = (Inr tests, s)"
| "build_loop templates ((name, v) # params) tests s =
     (let parents = str_split 47 name;
          sty = last parents;
          parents' = butlast parents
      in if parents' = [] then (Inl IndexError, s)
         else bind (populate_templates templates (last parents') sty v tests)
                (\<lambda>tests'. build_loop templates params tests') s)"

definition build_commitable_temp_files ::
  "env \<Rightarrow> (pystr \<times> pystr) list \<Rightarrow> test list \<Rightarrow> test list run" where
  "build_commitable_temp_files e templates tests = build_loop templates (ssm_params e) tests"

subsection \<open>The test branch\<close>

definition load_repo :: "env \<Rightarrow> pystr run" where
  "load_repo e =
     seq (call e Repo_open)
    (seq (call e Head_hexsha)
         (return (head_hexsha e)))"

definition remove_ignore_file :: "env \<Rightarrow> unit run" where
  "remove_ignore_file e =
     seq (call e (Index_remove_working_tree (lit ''.gitignore'')))
         (call e (Index_commit (lit ''Remove ignore file for testing'')))"

definition checkout_test_branch :: "env \<Rightarrow> pystr run" where
  "checkout_test_branch e =
     (let branch_name = lit ''detect_test_'' @ utc_timestamp e
      in seq (call e (Create_head branch_name))
        (seq (call e (Checkout branch_name))
        (seq (remove_ignore_file e)
             (return branch_name))))"

definition restore_ignore_file :: "env \<Rightarrow> unit run" where
  "restore_ignore_file e = call e (Reset_hard (lit ''HEAD^1''))"

definition delete_test_branch :: "env \<Rightarrow> pystr \<Rightarrow> pystr \<Rightarrow> unit run" where
  "delete_test_branch e parent_branch branch_name =
     seq (restore_ignore_file e)
    (seq (call e (Set_head_reference parent_branch))
         (call e (Delete_head branch_name)))"

subsection \<open>The probe: \<open>_test_commit\<close>\<close>

text \<open>The body of the \<open>try\<close>, then the function with its two handlers.\<close>

definition try_commit :: "env \<Rightarrow> pystr \<Rightarrow> unit run" where
  "try_commit e example_file =
     (let relative_path = lit ''test-detection/'' @ example_file
      in seq (call e (Index_add relative_path))
        (seq (call e (Index_commit (lit ''Test committing '' @ example_file)))
        (seq (call e (Rev_parse (lit ''HEAD~1'')))
        (seq (call e (Set_active_branch_commit (lit ''HEAD~1'')))
        (seq (call e (Index_remove relative_path))
             (log_error (lit ''Fail: Secret not detected for '' @ example_file)))))))"

definition test_commit :: "env \<Rightarrow> pystr \<Rightarrow> bool run" where
  "test_commit e example_file s =
     (let relative_path = lit ''test-detection/'' @ example_file
      in case try_commit e example_file s of
           (Inr u, s') \<Rightarrow> (Inr False, s')
         | (Inl err, s') \<Rightarrow>
             if err = HookExecutionError then
               seq (log_error (lit ''Pass: Secret detected for '' @ example_file @ lit '': ''))
              (seq (log_debug (exn_str err))
              (seq (call e (Index_remove relative_path))
                   (return True))) s'
             else if err = GitCommandError \<or> err = FileNotFoundError then
               seq (log_error (lit ''Fail: Other error '' @ example_file @ lit '': '' @ exn_str err))
              (seq (call e (Index_remove relative_path))
                   (return False)) s'
             else (Inl err, s'))"

subsection \<open>The orchestrator: \<open>check\<close>\<close>

definition cleanup_files :: "unit run" where
  "cleanup_files s = (case cleanup (files s) of (r, fl) \<Rightarrow> (r, s\<lparr>files := fl\<rparr>))"

definition branch :: "env \<Rightarrow> (pystr \<times> pystr) run" where
  "branch e =
     seq cleanup_files
    (bind (load_repo e) (\<lambda>parent_branch.
     bind (checkout_test_branch e) (\<lambda>branch_name.
     seq (call e Active_branch_name)
         (return (parent_branch, branch_name)))))"

text \<open>
  The probing loop of \<open>check\<close>. \<open>status\<close> is the \<open>defaultdict(list)\<close>, a list of
  paths for each outcome; the fixture is updated in place, so the loop gives back
  the fixtures as they are after it.
\<close>

type_synonym status = "outcome \<Rightarrow> pystr list"

fun check_probe_loop :: "env \<Rightarrow> test list \<Rightarrow> status \<Rightarrow> (status \<times> test list) run" where
  "check_probe_loop e [] status s = (Inr (status, []), s)"
| "check_probe_loop e (t # ts) status s =
     (let example = test_file t
      in if \<not> contains (lit ''README.md'') example
         then (case test_commit e example s of
                 (Inl x, s') \<Rightarrow> (Inl x, s')
               | (Inr d, s') \<Rightarrow>
                   (let oc = (if d then Passed else Failed)
                    in case check_probe_loop e ts (status(oc := status oc @ [example])) s' of
                         (Inl x, s'') \<Rightarrow> (Inl x, s'')
                       | (Inr (status', ts'), s'') \<Rightarrow>
                           (Inr (status', t\<lparr>detected := Some d, outcome := Some oc\<rparr> # ts'), s'')))
         else (case check_probe_loop e ts status s of
                 (Inl x, s'') \<Rightarrow> (Inl x, s'')
               | (Inr (status', ts'), s'') \<Rightarrow> (Inr (status', t # ts'), s'')))"

text \<open>
  The statistics by file type and by secret type: dictionaries of counters in
  insertion order. \<open>test["detected"]\<close> raises \<open>KeyError\<close> for a fixture that has
  no such key, after the two totals were incremented.
\<close>

record counts =
  total :: nat
  passed :: nat
  failed :: nat

type_synonym stats_map = "(pystr \<times> counts) list"

definition setdefault :: "pystr \<Rightarrow> stats_map \<Rightarrow> stats_map" where
  "setdefault k m =
     (if k \<in> fst ` set m then m else m @ [(k, \<lparr>total = 0, passed = 0, failed = 0\<rparr>)])"

definition bump :: "(counts \<Rightarrow> counts) \<Rightarrow> pystr \<Rightarrow> stats_map \<Rightarrow> stats_map" where
  "bump f k m = map (\<lambda>kc. if fst kc = k then (k, f (snd kc)) else kc) m"

fun check_stats_loop :: "test list \<Rightarrow> stats_map \<Rightarrow> stats_map \<Rightarrow> exn + (stats_map \<times> stats_map)" where
  "check_stats_loop [] language_stats secret_stats = Inr (language_stats, secret_stats)"
| "check_stats_loop (t # ts) language_stats secret_stats =
     (let lang = file_type t;
          language_stats = setdefault lang language_stats;
          key = source t @ lit '': '' @ secret_type t;
          secret_stats = setdefault key secret_stats;
          language_stats = bump (\<lambda>c. c\<lparr>total := total c + 1\<rparr>) lang language_stats;
          secret_stats = bump (\<lambda>c. c\<lparr>total := total c + 1\<rparr>) key secret_stats
      in case detected t of
           None \<Rightarrow> Inl KeyError
         | Some d \<Rightarrow>
             if d
             then check_stats_loop ts
                    (bump (\<lambda>c. c\<lparr>passed := passed c + 1\<rparr>) lang language_stats)
                    (bump (\<lambda>c. c\<lparr>passed := passed c + 1\<rparr>) key secret_stats)
             else check_stats_loop ts
                    (bump (\<lambda>c. c\<lparr>failed := failed c + 1\<rparr>) lang language_stats)
                    (bump (\<lambda>c. c\<lparr>failed := failed c + 1\<rparr>) key secret_stats))"

text \<open>
  The overall statistics. \<open>100 * passed / total\<close> is Python's true division of two
  integers: \<open>ZeroDivisionError\<close> for a zero divisor, otherwise the floating-point
  number nearest to the quotient; the model keeps the quotient itself, a rational.
\<close>

record overall = counts +
  success_rate :: rat

definition true_div :: "nat \<Rightarrow> nat \<Rightarrow> exn + rat" where
  "true_div a b = (if b = 0 then Inl ZeroDivisionError else Inr (of_nat a / of_nat b))"

definition check_overall :: "status \<Rightarrow> exn + overall" where
  "check_overall status =
     (let p = length (status Passed);
          f = length (status Failed);
          tot = p + f
      in case true_div (100 * p) tot of
           Inl x \<Rightarrow> Inl x
         | Inr rate \<Rightarrow> Inr \<lparr>total = tot, passed = p, failed = f, success_rate = rate\<rparr>)"

record report =
  r_tests :: "test list"
  r_language_stats :: stats_map
  r_secret_stats :: stats_map
  r_stats :: overall

definition check_report :: "test list \<Rightarrow> status \<Rightarrow> exn + report" where
  "check_report tests status =
     (case check_stats_loop tests [] [] of
        Inl x \<Rightarrow> Inl x
      | Inr (language_stats, secret_stats) \<Rightarrow>
          (case check_overall status of
             Inl x \<Rightarrow> Inl x
           | Inr st \<Rightarrow> Inr \<lparr>r_tests = tests, r_language_stats = language_stats,
                            r_secret_stats = secret_stats, r_stats = st\<rparr>))"

text \<open>
  \<open>check\<close>, for a checker that has just been made (\<open>self.tests\<close> is empty) with
  the templates it loaded: the part up to the end of the probing loop, then the whole
  method. Without the credential it prints a message and returns.
\<close>

definition check_probing ::
  "env \<Rightarrow> (pystr \<times> pystr) list \<Rightarrow> ((pystr \<times> pystr) \<times> status \<times> test list) run" where
  "check_probing e templates =
     bind (branch e) (\<lambda>refs.
     bind (build_commitable_temp_files e templates []) (\<lambda>tests.
     bind (check_probe_loop e tests (\<lambda>oc. [])) (\<lambda>probed.
     return (refs, probed))))"

definition check :: "env \<Rightarrow> (pystr \<times> pystr) list \<Rightarrow> report option run" where
  "check e templates =
     seq cleanup_files
       (if aws_key_present e
        then bind (check_probing e templates) (\<lambda>((parent_branch, branch_name), status, tests).
             seq (delete_test_branch e parent_branch branch_name)
            (seq (call e Head_hexsha)
                 (\<lambda>s. case check_report tests status of
                         Inl x \<Rightarrow> (Inl x, s)
                       | Inr r \<Rightarrow> (Inr (Some r), s))))
        else return None)"

section \<open>Example runs\<close>

text \<open>
  The example of the specification: two templates and a catalog of two secrets, with
  the four fixtures generated from them. Repositories: one where every call succeeds,
  one whose hook rejects every fixture commit but the one of a given path, one where
  the fixture's path is missing and cannot be unstaged either, one where it is missing
  and the unstaging goes through, and one where the hard reset of the teardown fails.
\<close>

definition example_templates :: "(pystr \<times> pystr) list" where
  "example_templates =
     [(lit ''example.py'', lit ''a = %SINGLE_LINE_VARIABLE%''),
      (lit ''Example.java'', lit ''b = %MULTI_LINE_VARIABLE%'')]"



definition git_ok :: "event list \<Rightarrow> git_call \<Rightarrow> exn option" where
  "git_ok h c = None"

definition git_hook :: "pystr \<Rightarrow> event list \<Rightarrow> git_call \<Rightarrow> exn option" where
  "git_hook missed h c =
     (case c of
        Index_commit m \<Rightarrow>
          if prefix (lit ''Test committing '') m \<and> m \<noteq> lit ''Test committing '' @ missed
          then Some HookExecutionError else None
      | _ \<Rightarrow> None)"

definition git_missing_path :: "event list \<Rightarrow> git_call \<Rightarrow> exn option" where
  "git_missing_path h c =
     (case c of
        Index_add p \<Rightarrow> Some FileNotFoundError
      | Index_remove p \<Rightarrow> Some GitCommandError
      | _ \<Rightarrow> None)"

definition git_add_fails :: "event list \<Rightarrow> git_call \<Rightarrow> exn option" where
  "git_add_fails h c = (case c of Index_add p \<Rightarrow> Some FileNotFoundError | _ \<Rightarrow> None)"

definition git_reset_fails :: "event list \<Rightarrow> git_call \<Rightarrow> exn option" where
  "git_reset_fails h c = (case c of Reset_hard r \<Rightarrow> Some GitCommandError | _ \<Rightarrow> None)"

definition example_env :: "(event list \<Rightarrow> git_call \<Rightarrow> exn option) \<Rightarrow> (pystr \<times> pystr) list \<Rightarrow> env" where
  "example_env g params =
     \<lparr>git = g, head_hexsha = lit ''0a1b2c3'', utc_timestamp = lit ''2021-02-03_0405'',
      aws_key_present = True, ssm_params = params\<rparr>"

definition empty_state :: state where
  "empty_state = \<lparr>files = [(lit ''commits/README.md'', lit ''fixtures'')], index = [], events = []\<rparr>"

definition example_test :: "pystr \<Rightarrow> test" where
  "example_test path =
     \<lparr>source = lit ''s'', secret_type = lit ''k'', test_file = path, file_type = lit ''py'',
      detected = None, outcome = None\<rparr>"


section \<open>Observing a run\<close>

text \<open>
  Notions for the statements below: the exceptions the library raised during a stretch
  of events, in order; the events a run added; the calls of a probe's \<open>try\<close> block and
  of the teardown, in program order; the exceptions \<open>_test_commit\<close> has a handler for;
  what a handler logs. \<open>run_calls\<close> is a block of calls made one after the other,
  which an exception leaves.
\<close>

fun raised_by :: "event \<Rightarrow> exn list" where
  "raised_by (Git c (Some x)) = [x]"
| "raised_by ev = []"

definition raised :: "event list \<Rightarrow> exn list" where
  "raised evs = concat (map raised_by evs)"

fun is_git :: "event \<Rightarrow> bool" where
  "is_git (Git c r) = True"
| "is_git ev = False"

definition new_events :: "state \<Rightarrow> state \<Rightarrow> event list" where
  "new_events s s' = drop (length (events s)) (events s')"

fun run_calls :: "env \<Rightarrow> git_call list \<Rightarrow> unit run" where
  "run_calls e [] = return ()"
| "run_calls e (c # cs) = seq (call e c) (run_calls e cs)"

definition probe_calls :: "pystr \<Rightarrow> git_call list" where
  "probe_calls example_file =
     [Index_add (lit ''test-detection/'' @ example_file),
      Index_commit (lit ''Test committing '' @ example_file),
      Rev_parse (lit ''HEAD~1''),
      Set_active_branch_commit (lit ''HEAD~1''),
      Index_remove (lit ''test-detection/'' @ example_file)]"

definition handled :: "exn \<Rightarrow> bool" where
  "handled x = (x = HookExecutionError \<or> x = GitCommandError \<or> x = FileNotFoundError)"

definition handler_log :: "pystr \<Rightarrow> exn \<Rightarrow> event list" where
  "handler_log f x =
     (if x = HookExecutionError
      then [Log_error (lit ''Pass: Secret detected for '' @ f @ lit '': ''), Log_debug (exn_str x)]
      else [Log_error (lit ''Fail: Other error '' @ f @ lit '': '' @ exn_str x)])"

definition teardown_calls :: "pystr \<Rightarrow> pystr \<Rightarrow> git_call list" where
  "teardown_calls parent_branch branch_name =
     [Reset_hard (lit ''HEAD^1''), Set_head_reference parent_branch, Delete_head branch_name]"

text \<open>
  The calls that set up the test branch, in program order, the events that belong to the
  teardown, and \<open>check\<close> up to the end of its probing loop (the first cleanup, then
  what \<open>check_probing\<close> does), which is what runs before the teardown when the
  credential is present.
\<close>

definition setup_calls :: "env \<Rightarrow> git_call list" where
  "setup_calls e =
     [Repo_open, Head_hexsha,
      Create_head (lit ''detect_test_'' @ utc_timestamp e),
      Checkout (lit ''detect_test_'' @ utc_timestamp e),
      Index_remove_working_tree (lit ''.gitignore''),
      Index_commit (lit ''Remove ignore file for testing''),
      Active_branch_name]"

fun is_teardown :: "event \<Rightarrow> bool" where
  "is_teardown (Git (Reset_hard r) x) = True"
| "is_teardown (Git (Set_head_reference r) x) = True"
| "is_teardown (Git (Delete_head b) x) = True"
| "is_teardown ev = False"

definition check_until_teardown ::
  "env \<Rightarrow> (pystr \<times> pystr) list \<Rightarrow> ((pystr \<times> pystr) \<times> status \<times> test list) run" where
  "check_until_teardown e templates = seq cleanup_files (check_probing e templates)"

text \<open>
  A fixture after its probe, and the \<open>status\<close> lists after the probing loop, for a
  repository in which the probe of a path \<open>f\<close> returns \<open>verdict f\<close>.
\<close>

definition with_verdict :: "(pystr \<Rightarrow> bool) \<Rightarrow> test \<Rightarrow> test" where
  "with_verdict verdict t =
     t\<lparr>detected := Some (verdict (test_file t)),
       outcome := Some (if verdict (test_file t) then Passed else Failed)\<rparr>"

definition status_of :: "(pystr \<Rightarrow> bool) \<Rightarrow> test list \<Rightarrow> status" where
  "status_of verdict ts oc =
     map test_file (filter (\<lambda>t. (if verdict (test_file t) then Passed else Failed) = oc) ts)"

section \<open>Splitting, joining and case\<close>

lemma split_on_not_Nil: "split_on p s \<noteq> []"
  by (induction s) (auto split: list.splits)

lemma split_on_tokens: "t \<in> set (split_on p s) \<Longrightarrow> c \<in> set t \<Longrightarrow> \<not> p c"
proof (induction s arbitrary: t)
  case Nil then show ?case by simp
next
  case (Cons a s)
  show ?case
  proof (cases "p a")
    case True
    with Cons show ?thesis by auto
  next
    case False
    obtain u us where sp: "split_on p s = u # us"
      using split_on_not_Nil [of p s] by (cases "split_on p s") auto
    from Cons.prems False sp have "t = a # u \<or> t \<in> set us" by auto
    then show ?thesis
    proof
      assume "t = a # u"
      with Cons.prems(2) have "c = a \<or> c \<in> set u" by auto
      then show ?thesis using False Cons.IH [of u] sp by auto
    next
      assume "t \<in> set us"
      then show ?thesis using Cons.IH [of t] sp Cons.prems(2) by auto
    qed
  qed
qed

lemma split_on_no_sep: "\<forall>c \<in> set s. \<not> p c \<Longrightarrow> split_on p s = [s]"
  by (induction s) auto

lemma split_on_snoc_sep:
  "p c \<Longrightarrow> split_on p (a @ c # b) = split_on p a @ split_on p b"
proof (induction a)
  case Nil then show ?case by simp
next
  case (Cons x a)
  then show ?case using split_on_not_Nil [of p a] 
    by (cases "split_on p a") (auto split: list.splits)
qed

lemma join_split_on: "join [c] (split_on (\<lambda>x. x = c) s) = s"
proof (induction s)
  case Nil then show ?case by simp
next
  case (Cons a s)
  obtain u us where sp: "split_on (\<lambda>x. x = c) s = u # us"
    using split_on_not_Nil [of _ s] by (cases "split_on (\<lambda>x. x = c) s") auto
  show ?case using Cons sp by (cases us) auto
qed

lemma title_from_index:
  "title_from prev w =
     map (\<lambda>i. if (if i = 0 then prev else is_cased (w ! (i - 1)))
                then to_lower (w ! i) else to_upper (w ! i)) [0..<length w]"
proof (induction w arbitrary: prev)
  case Nil then show ?case by simp
next
  case (Cons c w)
  have "[0..<length (c # w)] = 0 # map Suc [0..<length w]"
    by (simp add: upt_conv_Cons map_Suc_upt del: upt_Suc)
  then show ?case
    by (auto simp: Cons.IH comp_def nth_Cons' simp del: upt_Suc intro!: map_cong split: if_splits)
qed

lemma title_title_cased: "title w = title_cased w"
  unfolding title_def title_cased_def title_from_index
  by (rule map_cong) auto

lemma replace_space: "replace [32] [] s = filter (\<lambda>c. c \<noteq> 32) s"
  unfolding replace_def by (induction s) auto

lemma to_upper_space: "to_upper c = 32 \<longleftrightarrow> c = 32"
  by (auto simp: to_upper_def is_lower_def)

lemma to_lower_space: "to_lower c = 32 \<longleftrightarrow> c = 32"
  by (auto simp: to_lower_def is_upper_def)

lemma title_from_no_space: "32 \<notin> set w \<Longrightarrow> 32 \<notin> set (title_from prev w)"
  by (induction w arbitrary: prev) (auto simp: to_upper_space to_lower_space)

lemma title_from_space:
  "title_from prev (w @ 32 # rest) = title_from prev w @ 32 # title_from False rest"
  by (induction w arbitrary: prev) (auto simp: to_upper_def to_lower_def is_cased_def is_upper_def is_lower_def)

lemma title_join: "title (join [32] ws) = join [32] (map title ws)"
proof (induction "[32::nat]" ws rule: join.induct)
  case 1 then show ?case by (simp add: title_def)
next
  case (2 w) then show ?case by simp
next
  case (3 w v ws)
  then show ?case by (simp add: title_def title_from_space)
qed

lemma filter_join_space:
  "\<forall>w \<in> set ws. 32 \<notin> set w \<Longrightarrow> filter (\<lambda>c. c \<noteq> 32) (join [32] ws) = concat ws"
proof (induction "[32::nat]" ws rule: join.induct)
  case 1 then show ?case by simp
next
  case (2 w) then show ?case by (auto simp: filter_id_conv)
next
  case (3 w v ws)
  then show ?case by (auto simp: filter_id_conv)
qed

lemma lower_join: "lower (join sep ws) = join (lower sep) (map lower ws)"
  by (induction sep ws rule: join.induct) (simp_all add: lower_def)

lemma split_last_sep:
  assumes "c \<notin> set b"
  shows "split_on (\<lambda>x. x = c) (a @ c # b) = split_on (\<lambda>x. x = c) a @ [b]"
proof -
  have "split_on (\<lambda>x. x = c) b = [b]"
    using assms by (intro split_on_no_sep) auto
  then show ?thesis by (simp add: split_on_snoc_sep)
qed

lemma last_str_split: "last (str_split c s) = rev (takeWhile (\<lambda>x. x \<noteq> c) (rev s))"
proof (cases "c \<in> set s")
  case True
  then obtain a b where s: "s = a @ c # b" and b: "c \<notin> set b"
    using split_list_last by fastforce
  have "takeWhile (\<lambda>x. x \<noteq> c) (rev b @ c # rev a) = rev b"
    using b by (subst takeWhile_append2) auto
  then show ?thesis
    unfolding str_split_def s using b by (simp add: split_last_sep)
next
  case False
  then have sp: "split_on (\<lambda>x. x = c) s = [s]" by (intro split_on_no_sep) auto
  have tw: "takeWhile (\<lambda>x. x \<noteq> c) (rev s) = rev s"
    using False by (auto simp: takeWhile_eq_all_conv)
  show ?thesis by (simp add: str_split_def sp tw)
qed

lemma join_butlast_str_split:
  "join [c] (butlast (str_split c s)) = rev (drop 1 (dropWhile (\<lambda>x. x \<noteq> c) (rev s)))"
proof (cases "c \<in> set s")
  case True
  then obtain a b where s: "s = a @ c # b" and b: "c \<notin> set b"
    using split_list_last by fastforce
  have "dropWhile (\<lambda>x. x \<noteq> c) (rev b @ c # rev a) = c # rev a"
    using b by (subst dropWhile_append2) auto
  then show ?thesis
    unfolding str_split_def s using b by (simp add: split_last_sep join_split_on)
next
  case False
  then have sp: "split_on (\<lambda>x. x = c) s = [s]" by (intro split_on_no_sep) auto
  have dw: "dropWhile (\<lambda>x. x \<noteq> c) (rev s) = []"
    using False by auto
  show ?thesis by (simp add: str_split_def sp dw)
qed

lemma java_name:
  assumes "\<forall>w \<in> set ws. 32 \<notin> set w"
  shows "replace (lit '' '') [] (title (join (lit '' '') ws)) = concat (map title_cased ws)"
proof -
  have sp: "lit '' '' = [32]" by (simp add: lit_def)
  have "\<forall>w \<in> set (map title ws). 32 \<notin> set w"
    using assms by (auto simp: title_def title_from_no_space)
  then have fj: "filter (\<lambda>c. c \<noteq> 32) (join [32] (map title ws)) = concat (map title ws)"
    by (rule filter_join_space)
  have tc: "map title ws = map title_cased ws"
    by (simp add: title_title_cased)
  show ?thesis
    using fj unfolding sp replace_space title_join tc .
qed

section \<open>The fixture path\<close>

text \<open>
  C5 (as amended). For an ASCII source and secret type and any template name, the path
  that \<open>generate_temp_file_name\<close> returns is the path of the specification: the
  words of \<open>commit_<source>_<secretType>\<close> split at \<open>-\<close>, \<open>_\<close>, \<open>.\<close> and
  space; for a template whose extension is \<open>java\<close> every word in title case (first
  letter of each run of letters in upper case, the other letters in lower case) and the
  words put together, followed by the base name; otherwise the words in lower case
  joined with \<open>_\<close>, then \<open>_\<close> and the base name; then a dot and the extension, under
  \<open>commits/\<close>.
\<close>

theorem generate_temp_file_name_shape:
  assumes "ascii src" and "ascii sty"
  shows "generate_temp_file_name src sty template = fixture_path_spec src sty template"
proof -
  define ws where "ws = split_on is_word_sep (lit ''commit_'' @ src @ lit ''_'' @ sty)"
  have "\<forall>w \<in> set ws. 32 \<notin> set w"
  proof
    fix w assume "w \<in> set ws"
    then have "\<not> is_word_sep c" if "c \<in> set w" for c
      using that split_on_tokens unfolding ws_def by blast
    moreover have "is_word_sep 32" by (simp add: is_word_sep_def lit_def)
    ultimately show "32 \<notin> set w" by blast
  qed
  then have java: "replace (lit '' '') [] (title (join (lit '' '') ws)) = concat (map title_cased ws)"
    by (rule java_name)
  have under: "lower (lit ''_'') = lit ''_''"
    by (simp add: lower_def lit_def to_lower_def is_upper_def)
  have dot: "lit ''.'' = [46]" by (simp add: lit_def)
  show ?thesis
    unfolding generate_temp_file_name_def fixture_path_spec_def Let_def ws_def [symmetric]
      template_extension_def template_base_name_def
    by (simp add: java lower_join under dot last_str_split join_butlast_str_split)
qed

theorem generate_temp_file_name_shape_witness:
  "ascii (lit ''sourceA'') \<and> ascii (lit ''aws_key'') \<and>
   generate_temp_file_name (lit ''sourceA'') (lit ''aws_key'') (lit ''example.py'')
     = lit ''commits/commit_sourcea_aws_key_example.py'' \<and>
   fixture_path_spec (lit ''sourceA'') (lit ''aws_key'') (lit ''example.py'')
     = lit ''commits/commit_sourcea_aws_key_example.py''"
proof -
  have a: "ascii (lit ''sourceA'')" and b: "ascii (lit ''aws_key'')"
    by (simp_all add: ascii_def lit_def)
  have "generate_temp_file_name (lit ''sourceA'') (lit ''aws_key'') (lit ''example.py'')
     = lit ''commits/commit_sourcea_aws_key_example.py''"
    by code_simp
  with generate_temp_file_name_shape [OF a b, of "lit ''example.py''"] a b
  show ?thesis by simp
qed

theorem java_path_example_counterexample:
  "generate_temp_file_name (lit ''sourceA'') (lit ''aws_key'') (lit ''Example.java'')
     = lit ''commits/CommitSourceaAwsKeyExample.java'' \<and>
   \<not> prefix (lit ''commits/CommitSourceAAwsKey'')
        (generate_temp_file_name (lit ''sourceA'') (lit ''aws_key'') (lit ''Example.java''))"
  by code_simp

section \<open>Escaping and replacing\<close>

lemma replace_scan_set: "set (replace_scan old new s) \<subseteq> set new \<union> set s"
proof (induction old new s rule: replace_scan.induct)
  case (1 old new) then show ?case by simp
next
  case (2 old new c cs)
  show ?case
  proof (cases "prefix old (c # cs)")
    case True
    with 2 have "set (replace_scan old new (drop (length old - 1) cs)) \<subseteq> set new \<union> set (drop (length old - 1) cs)"
      by simp
    moreover have "set (drop (length old - 1) cs) \<subseteq> set cs" by (rule set_drop_subset)
    ultimately show ?thesis using True by auto
  next
    case False
    with 2 show ?thesis by auto
  qed
qed










lemma replace_scan_skip:
  assumes "old = 37 # rest" and "37 \<notin> set a"
  shows "replace_scan old new (a @ s) = a @ replace_scan old new s"
  using assms(2) by (induction a) (auto simp: assms(1))


lemma replace_scan_tail:
  assumes "old = 37 # rest" and "37 \<in> set rest" and "37 \<notin> set c"
  shows "replace_scan old new (37 # c) = 37 # c"
proof -
  have "\<not> prefix rest c"
    using assms(2,3) set_mono_prefix by fastforce
  moreover have "replace_scan old new (c @ []) = c @ replace_scan old new []"
    using assms(1,3) by (rule replace_scan_skip)
  ultimately show ?thesis by (simp add: assms(1))
qed


lemma replace_scan_miss:
  "\<not> prefix old (x # xs) \<Longrightarrow> replace_scan old new (x # xs) = x # replace_scan old new xs"
  by simp


lemma multi_cons: "multi_line_placeholder = 37 # lit ''MULTI_LINE_VARIABLE%''"
  by (simp add: multi_line_placeholder_def lit_def)


lemma percent_multi: "37 \<in> set (lit ''MULTI_LINE_VARIABLE%'')"
  by (simp add: lit_def)


lemma multi_pass_single:
  assumes "37 \<notin> set c"
  shows "replace_scan multi_line_placeholder new (single_line_placeholder @ c)
         = single_line_placeholder @ c"
proof -
  have t: "replace_scan multi_line_placeholder new (37 # c) = 37 # c"
    using multi_cons percent_multi assms by (rule replace_scan_tail)
  have k: "replace_scan multi_line_placeholder new (lit ''SINGLE_LINE_VARIABLE'' @ 37 # c)
     = lit ''SINGLE_LINE_VARIABLE'' @ replace_scan multi_line_placeholder new (37 # c)"
    by (rule replace_scan_skip [OF multi_cons]) (simp add: lit_def)
  have m: "single_line_placeholder @ c = 37 # (lit ''SINGLE_LINE_VARIABLE'' @ 37 # c)"
    by (simp add: single_line_placeholder_def lit_def)
  have np: "\<not> prefix multi_line_placeholder (37 # (lit ''SINGLE_LINE_VARIABLE'' @ 37 # c))"
    by (simp add: multi_line_placeholder_def lit_def)
  show ?thesis
    unfolding m replace_scan_miss [OF np] k t ..
qed







section \<open>The fixture content\<close>




section \<open>Cleanup\<close>

lemma cleanup_loop_removes:
  assumes "distinct ps" and "set ps \<subseteq> fst ` set fl"
  shows "cleanup_loop ps fl
         = (Inr (), filter (\<lambda>f. fst f \<notin> set ps \<or> contains (lit ''README.md'') (fst f)) fl)"
  using assms
proof (induction ps arbitrary: fl)
  case Nil
  then show ?case by simp
next
  case (Cons p ps)
  show ?case
  proof (cases "contains (lit ''README.md'') p")
    case True
    have "cleanup_loop ps fl
         = (Inr (), filter (\<lambda>f. fst f \<notin> set ps \<or> contains (lit ''README.md'') (fst f)) fl)"
      using Cons.prems by (intro Cons.IH) auto
    moreover have "filter (\<lambda>f. fst f \<notin> set ps \<or> contains (lit ''README.md'') (fst f)) fl
        = filter (\<lambda>f. fst f \<notin> set (p # ps) \<or> contains (lit ''README.md'') (fst f)) fl"
      using True by (intro filter_cong) auto
    ultimately show ?thesis using True by simp
  next
    case False
    let ?fl = "filter (\<lambda>f. fst f \<noteq> p) fl"
    have rm: "os_remove p fl = Inr ?fl"
      using Cons.prems by (auto simp: os_remove_def)
    have "set ps \<subseteq> fst ` set ?fl"
      using Cons.prems by force
    then have "cleanup_loop ps ?fl
         = (Inr (), filter (\<lambda>f. fst f \<notin> set ps \<or> contains (lit ''README.md'') (fst f)) ?fl)"
      using Cons.prems by (intro Cons.IH) auto
    moreover have "filter (\<lambda>f. fst f \<notin> set ps \<or> contains (lit ''README.md'') (fst f)) ?fl
        = filter (\<lambda>f. fst f \<notin> set (p # ps) \<or> contains (lit ''README.md'') (fst f)) fl"
      using False by (auto intro: filter_cong)
    ultimately show ?thesis using False rm by simp
  qed
qed

lemma cleanup_removes:
  assumes "distinct (map fst fl)"
  shows "cleanup fl
         = (Inr (), filter (\<lambda>f. \<not> listed_in (lit ''commits'') (fst f)
                               \<or> contains (lit ''README.md'') (fst f)) fl)"
proof -
  let ?ps = "glob_star (lit ''commits'') fl"
  have "distinct ?ps" using assms by (simp add: glob_star_def)
  moreover have "set ?ps \<subseteq> fst ` set fl" by (auto simp: glob_star_def)
  ultimately have "cleanup_loop ?ps fl
      = (Inr (), filter (\<lambda>f. fst f \<notin> set ?ps \<or> contains (lit ''README.md'') (fst f)) fl)"
    by (rule cleanup_loop_removes)
  moreover have "filter (\<lambda>f. fst f \<notin> set ?ps \<or> contains (lit ''README.md'') (fst f)) fl
      = filter (\<lambda>f. \<not> listed_in (lit ''commits'') (fst f)
                               \<or> contains (lit ''README.md'') (fst f)) fl"
    by (intro filter_cong) (auto simp: glob_star_def)
  ultimately show ?thesis by (simp add: cleanup_def)
qed




section \<open>Blocks of calls\<close>

lemma seq_assoc: "seq (seq a b) c = seq a (seq b c)"
  by (rule ext) (simp add: seq_def bind_def split: prod.splits sum.splits)

lemma seq_return: "seq m (return ()) = m"
  by (rule ext) (auto simp: seq_def bind_def return_def split: prod.splits sum.splits)

lemma return_seq: "seq (return ()) m = m"
  by (rule ext) (simp add: seq_def bind_def return_def)

lemma seq_Inl: "m s = (Inl x, s1) \<Longrightarrow> seq m n s = (Inl x, s1)"
  by (simp add: seq_def bind_def)

lemma seq_Inr: "m s = (Inr u, s1) \<Longrightarrow> seq m n s = n s1"
  by (simp add: seq_def bind_def)

lemma bind_Inl: "m s = (Inl x, s1) \<Longrightarrow> bind m f s = (Inl x, s1)"
  by (simp add: bind_def)

lemma bind_Inr: "m s = (Inr a, s1) \<Longrightarrow> bind m f s = f a s1"
  by (simp add: bind_def)

lemma raised_append: "raised (a @ b) = raised a @ raised b"
  by (simp add: raised_def)

lemma raised_ok: "raised (map (\<lambda>c. Git c None) cs) = []"
  by (induction cs) (simp_all add: raised_def)

text \<open>A block of calls stops at the first call that raises.\<close>

lemma run_calls_result:
  assumes "run_calls e cs s = (r, s')"
  shows "\<exists>k \<le> length cs.
           files s' = files s \<and>
           index s' = fold index_effect (take k cs) (index s) \<and>
           (case r of
              Inr u \<Rightarrow> k = length cs \<and> events s' = events s @ map (\<lambda>c. Git c None) cs
            | Inl x \<Rightarrow> k < length cs \<and>
                events s' = events s @ map (\<lambda>c. Git c None) (take k cs) @ [Git (cs ! k) (Some x)])"
  using assms
proof (induction cs arbitrary: s)
  case Nil
  then show ?case by (auto simp: return_def)
next
  case (Cons c cs)
  show ?case
  proof (cases "git e (events s) c")
    case (Some x)
    with Cons.prems have "r = Inl x" "s' = s\<lparr>events := events s @ [Git c (Some x)]\<rparr>"
      by (auto simp: seq_def bind_def call_def)
    then show ?thesis by (intro exI [of _ 0]) simp
  next
    case None
    let ?s1 = "s\<lparr>index := index_effect c (index s), events := events s @ [Git c None]\<rparr>"
    from None Cons.prems have "run_calls e cs ?s1 = (r, s')"
      by (auto simp: seq_def bind_def call_def)
    from Cons.IH [OF this] obtain k where k: "k \<le> length cs"
      "files s' = files ?s1" "index s' = fold index_effect (take k cs) (index ?s1)"
      "case r of
              Inr u \<Rightarrow> k = length cs \<and> events s' = events ?s1 @ map (\<lambda>c. Git c None) cs
            | Inl x \<Rightarrow> k < length cs \<and>
                events s' = events ?s1 @ map (\<lambda>c. Git c None) (take k cs) @ [Git (cs ! k) (Some x)]"
      by blast
    then show ?thesis
      by (intro exI [of _ "Suc k"]) (auto split: sum.splits)
  qed
qed

lemma try_commit_calls:
  "try_commit e f =
     seq (run_calls e (probe_calls f)) (log_error (lit ''Fail: Secret not detected for '' @ f))"
  by (simp add: try_commit_def probe_calls_def Let_def seq_assoc return_seq)

lemma delete_test_branch_calls:
  "delete_test_branch e pb bn =
     run_calls e [Reset_hard (lit ''HEAD^1''), Set_head_reference pb, Delete_head bn]"
  by (simp add: delete_test_branch_def restore_ignore_file_def seq_return)

section \<open>The probe\<close>

lemma length_probe_calls: "length (probe_calls f) = 5"
  by (simp add: probe_calls_def)

lemma log_error_result: "log_error m s = (Inr (), s\<lparr>events := events s @ [Log_error m]\<rparr>)"
  by (simp add: log_error_def)

lemma try_commit_result:
  assumes "try_commit e f s = (rt, st)"
  shows "\<exists>k \<le> 5.
           files st = files s \<and>
           index st = fold index_effect (take k (probe_calls f)) (index s) \<and>
           (case rt of
              Inr u \<Rightarrow> k = 5 \<and>
                events st = events s @ map (\<lambda>c. Git c None) (probe_calls f)
                              @ [Log_error (lit ''Fail: Secret not detected for '' @ f)]
            | Inl x \<Rightarrow> k < 5 \<and>
                events st = events s @ map (\<lambda>c. Git c None) (take k (probe_calls f))
                              @ [Git (probe_calls f ! k) (Some x)])"
proof -
  obtain r1 s1 where r1: "run_calls e (probe_calls f) s = (r1, s1)"
    by (cases "run_calls e (probe_calls f) s") auto
  from run_calls_result [OF r1, unfolded length_probe_calls] obtain k where k: "k \<le> 5" "files s1 = files s"
    "index s1 = fold index_effect (take k (probe_calls f)) (index s)"
    "case r1 of
       Inr u \<Rightarrow> k = 5 \<and> events s1 = events s @ map (\<lambda>c. Git c None) (probe_calls f)
     | Inl x \<Rightarrow> k < 5 \<and>
         events s1 = events s @ map (\<lambda>c. Git c None) (take k (probe_calls f))
                       @ [Git (probe_calls f ! k) (Some x)]"
    by blast
  show ?thesis
  proof (cases r1)
    case (Inl x)
    with r1 assms have "rt = Inl x" "st = s1"
      by (simp_all add: try_commit_calls seq_Inl)
    with k Inl show ?thesis by (intro exI [of _ k]) simp
  next
    case (Inr u)
    with r1 assms have "rt = Inr ()"
      "st = s1\<lparr>events := events s1 @ [Log_error (lit ''Fail: Secret not detected for '' @ f)]\<rparr>"
      by (simp_all add: try_commit_calls seq_Inr log_error_result)
    with k Inr show ?thesis by (intro exI [of _ k]) simp
  qed
qed

lemma unstage_after:
  "k \<le> 5 \<Longrightarrow>
   removeAll (lit ''test-detection/'' @ f)
     (fold index_effect (take k (probe_calls f)) ix)
   = removeAll (lit ''test-detection/'' @ f) ix"
proof -
  assume "k \<le> 5"
  then consider "k = 0" | "k = 1" | "k = 2" | "k = 3" | "k = 4" | "k = 5" by linarith
  then show ?thesis
    by cases (simp_all add: probe_calls_def)
qed

lemma test_commit_handler:
  assumes "try_commit e f s = (Inl x, st)" and "handled x"
  shows "test_commit e f s =
     (case git e (events st @ handler_log f x) (Index_remove (lit ''test-detection/'' @ f)) of
        None \<Rightarrow> (Inr (x = HookExecutionError),
                   st\<lparr>index := removeAll (lit ''test-detection/'' @ f) (index st),
                      events := events st @ handler_log f x
                                 @ [Git (Index_remove (lit ''test-detection/'' @ f)) None]\<rparr>)
      | Some z \<Rightarrow> (Inl z,
                   st\<lparr>events := events st @ handler_log f x
                                 @ [Git (Index_remove (lit ''test-detection/'' @ f)) (Some z)]\<rparr>))"
  using assms
  by (auto simp: test_commit_def handled_def handler_log_def Let_def seq_def bind_def return_def
        log_error_def log_debug_def call_def split: option.splits)

lemma test_commit_escape:
  assumes "try_commit e f s = (Inl x, st)" and "\<not> handled x"
  shows "test_commit e f s = (Inl x, st)"
  using assms by (auto simp: test_commit_def handled_def Let_def)

lemma test_commit_committed:
  assumes "try_commit e f s = (Inr u, st)"
  shows "test_commit e f s = (Inr False, st)"
  using assms by (simp add: test_commit_def Let_def)

lemma test_commit_result:
  assumes "test_commit e f s = (r, s')"
  shows "\<exists>k \<le> 5. \<exists>tail.
     files s' = files s \<and>
     events s' = events s @ map (\<lambda>c. Git c None) (take k (probe_calls f)) @ tail \<and>
     ((k = 5 \<and> tail = [Log_error (lit ''Fail: Secret not detected for '' @ f)] \<and> r = Inr False \<and>
         index s' = removeAll (lit ''test-detection/'' @ f) (index s))
      \<or> (k < 5 \<and> (\<exists>x. \<not> handled x \<and> tail = [Git (probe_calls f ! k) (Some x)] \<and> r = Inl x))
      \<or> (k < 5 \<and> (\<exists>x. handled x \<and>
            tail = Git (probe_calls f ! k) (Some x) # handler_log f x
                     @ [Git (Index_remove (lit ''test-detection/'' @ f)) None] \<and>
            r = Inr (x = HookExecutionError) \<and>
            index s' = removeAll (lit ''test-detection/'' @ f) (index s)))
      \<or> (k < 5 \<and> (\<exists>x z. handled x \<and>
            tail = Git (probe_calls f ! k) (Some x) # handler_log f x
                     @ [Git (Index_remove (lit ''test-detection/'' @ f)) (Some z)] \<and>
            r = Inl z)))"
proof -
  let ?rel = "lit ''test-detection/'' @ f"
  obtain rt st where t: "try_commit e f s = (rt, st)"
    by (cases "try_commit e f s") auto
  from try_commit_result [OF t] obtain k where k: "k \<le> 5" "files st = files s"
    "index st = fold index_effect (take k (probe_calls f)) (index s)"
    "case rt of
       Inr u \<Rightarrow> k = 5 \<and>
         events st = events s @ map (\<lambda>c. Git c None) (probe_calls f)
                       @ [Log_error (lit ''Fail: Secret not detected for '' @ f)]
     | Inl x \<Rightarrow> k < 5 \<and>
         events st = events s @ map (\<lambda>c. Git c None) (take k (probe_calls f))
                       @ [Git (probe_calls f ! k) (Some x)]"
    by blast
  have ix: "removeAll ?rel (index st) = removeAll ?rel (index s)"
    using k(1,3) by (simp add: unstage_after)
  show ?thesis
  proof (cases rt)
    case (Inr u)
    with t assms have r: "r = Inr False" "s' = st"
      by (simp_all add: test_commit_committed)
    from Inr k have k5: "k = 5" and ev: "events st = events s @ map (\<lambda>c. Git c None) (probe_calls f)
                       @ [Log_error (lit ''Fail: Secret not detected for '' @ f)]"
      by simp_all
    have "index st = removeAll ?rel (index s)"
      using k(3) k5 by (simp add: probe_calls_def)
    with r k5 ev k(2) show ?thesis
      by (intro exI [of _ 5] exI [of _ "[Log_error (lit ''Fail: Secret not detected for '' @ f)]"])
         (simp add: length_probe_calls)
  next
    case (Inl x)
    with k have klt: "k < 5" and ev: "events st = events s @ map (\<lambda>c. Git c None) (take k (probe_calls f))
                       @ [Git (probe_calls f ! k) (Some x)]"
      by simp_all
    show ?thesis
    proof (cases "handled x")
      case False
      with t Inl assms have "r = Inl x" "s' = st"
        by (simp_all add: test_commit_escape)
      with False klt ev k(1,2) show ?thesis
        by (intro exI [of _ k] exI [of _ "[Git (probe_calls f ! k) (Some x)]"]) auto
    next
      case True
      note h = test_commit_handler [OF t [unfolded Inl] True]
      show ?thesis
      proof (cases "git e (events st @ handler_log f x) (Index_remove ?rel)")
        case None
        with h assms have "r = Inr (x = HookExecutionError)"
          "s' = st\<lparr>index := removeAll ?rel (index st),
                  events := events st @ handler_log f x @ [Git (Index_remove ?rel) None]\<rparr>"
          by simp_all
        with True klt ev k(1,2) ix show ?thesis
          by (intro exI [of _ k]
                exI [of _ "Git (probe_calls f ! k) (Some x) # handler_log f x
                           @ [Git (Index_remove ?rel) None]"]) auto
      next
        case (Some z)
        with h assms have "r = Inl z"
          "s' = st\<lparr>events := events st @ handler_log f x @ [Git (Index_remove ?rel) (Some z)]\<rparr>"
          by simp_all
        with True klt ev k(1,2) show ?thesis
          by (intro exI [of _ k]
                exI [of _ "Git (probe_calls f ! k) (Some x) # handler_log f x
                           @ [Git (Index_remove ?rel) (Some z)]"]) auto
      qed
    qed
  qed
qed

lemma raised_handler_log: "raised (handler_log f x) = []"
  by (simp add: handler_log_def raised_def)

lemma new_events_append: "events s' = events s @ new \<Longrightarrow> new_events s s' = new"
  by (simp add: new_events_def)

lemma filter_git_ok: "filter is_git (map (\<lambda>c. Git c None) cs) = map (\<lambda>c. Git c None) cs"
  by (induction cs) simp_all

lemma filter_git_handler_log: "filter is_git (handler_log f x) = []"
  by (simp add: handler_log_def)

lemmas probe_eval = test_commit_def try_commit_def seq_def bind_def return_def
  log_error_def log_debug_def call_def Let_def example_env_def empty_state_def

text \<open>
  C4 (as amended). \<open>_test_commit\<close> returns true exactly when one exception was raised
  during the probe and it was \<open>HookExecutionError\<close>, and false exactly when none was
  raised or the only one was \<open>GitCommandError\<close> or \<open>FileNotFoundError\<close>; these
  failures of the \<open>try\<close> block are contained. An exception leaves the probe, and with
  it the probing loop, exactly when it is of another class, or when it is raised by the
  unstaging inside a handler.
\<close>

theorem test_commit_verdict:
  assumes "test_commit e f s = (r, s')"
  shows "(r = Inr True \<longleftrightarrow> raised (new_events s s') = [HookExecutionError]) \<and>
         (r = Inr False \<longleftrightarrow> raised (new_events s s') = [] \<or>
                          raised (new_events s s') = [GitCommandError] \<or>
                          raised (new_events s s') = [FileNotFoundError]) \<and>
         (\<forall>x. r = Inl x \<longleftrightarrow> (\<not> handled x \<and> raised (new_events s s') = [x]) \<or>
                            (\<exists>y. handled y \<and> raised (new_events s s') = [y, x]))"
proof -
  from test_commit_result [OF assms] obtain k tail where
    ev: "events s' = events s @ map (\<lambda>c. Git c None) (take k (probe_calls f)) @ tail" and
    c: "(k = 5 \<and> tail = [Log_error (lit ''Fail: Secret not detected for '' @ f)] \<and> r = Inr False \<and>
         index s' = removeAll (lit ''test-detection/'' @ f) (index s))
      \<or> (k < 5 \<and> (\<exists>x. \<not> handled x \<and> tail = [Git (probe_calls f ! k) (Some x)] \<and> r = Inl x))
      \<or> (k < 5 \<and> (\<exists>x. handled x \<and>
            tail = Git (probe_calls f ! k) (Some x) # handler_log f x
                     @ [Git (Index_remove (lit ''test-detection/'' @ f)) None] \<and>
            r = Inr (x = HookExecutionError) \<and>
            index s' = removeAll (lit ''test-detection/'' @ f) (index s)))
      \<or> (k < 5 \<and> (\<exists>x z. handled x \<and>
            tail = Git (probe_calls f ! k) (Some x) # handler_log f x
                     @ [Git (Index_remove (lit ''test-detection/'' @ f)) (Some z)] \<and>
            r = Inl z))"
    by blast
  have n: "raised (new_events s s') = raised tail"
    using new_events_append [OF ev] by (simp add: raised_append raised_ok)
  have rc: "raised (ev # evs) = raised_by ev @ raised evs" for ev evs
    by (simp add: raised_def)
  from c consider
      (committed) "tail = [Log_error (lit ''Fail: Secret not detected for '' @ f)]" "r = Inr False"
    | (escaped) x where "\<not> handled x" "tail = [Git (probe_calls f ! k) (Some x)]" "r = Inl x"
    | (caught) x where "handled x"
        "tail = Git (probe_calls f ! k) (Some x) # handler_log f x
                     @ [Git (Index_remove (lit ''test-detection/'' @ f)) None]"
        "r = Inr (x = HookExecutionError)"
    | (handler) x z where "handled x"
        "tail = Git (probe_calls f ! k) (Some x) # handler_log f x
                     @ [Git (Index_remove (lit ''test-detection/'' @ f)) (Some z)]"
        "r = Inl z"
    by blast
  then show ?thesis
  proof cases
    case committed
    then have "raised tail = []" by (simp add: raised_def)
    with committed n show ?thesis by simp
  next
    case (escaped x)
    then have "raised tail = [x]" by (simp add: raised_def)
    with escaped n show ?thesis by (auto simp: handled_def)
  next
    case (caught x)
    then have "raised tail = [x]"
      by (simp add: rc raised_append raised_handler_log) (simp add: raised_def)
    with caught n show ?thesis by (auto simp: handled_def)
  next
    case (handler x z)
    then have "raised tail = [x, z]"
      by (simp add: rc raised_append raised_handler_log) (simp add: raised_def)
    with handler n show ?thesis by auto
  qed
qed

theorem test_commit_verdict_witness:
  "fst (test_commit (example_env (git_hook []) []) (lit ''commits/a.py'') empty_state) = Inr True \<and>
   raised (new_events empty_state
      (snd (test_commit (example_env (git_hook []) []) (lit ''commits/a.py'') empty_state)))
     = [HookExecutionError]"
proof -
  let ?p = "test_commit (example_env (git_hook []) []) (lit ''commits/a.py'') empty_state"
  have r: "fst ?p = Inr True"
    by (simp add: probe_eval git_hook_def lit_def)
  have "?p = (fst ?p, snd ?p)" by simp
  from test_commit_verdict [OF this] r show ?thesis by simp
qed

theorem test_commit_propagates_counterexample:
  "fst (test_commit (example_env git_missing_path []) (lit ''commits/a.py'') empty_state)
     = Inl GitCommandError \<and>
   fst (check_probe_loop (example_env git_missing_path [])
          [example_test (lit ''commits/a.py''), example_test (lit ''commits/b.py'')]
          (\<lambda>oc. []) empty_state)
     = Inl GitCommandError"
  by (simp add: probe_eval git_missing_path_def example_test_def lit_def)

text \<open>
  C6. Whenever \<open>_test_commit\<close> returns, on the path where the commit went through, on
  the path where the hook rejected it and on the path of another handled failure alike,
  the last call it made was a successful \<open>index.remove\<close> of the fixture's path: the
  path is not in the index, and an index that was clean before the probe is clean after.
\<close>

theorem test_commit_unstages:
  assumes "test_commit e f s = (Inr d, s')"
  shows "index s' = removeAll (lit ''test-detection/'' @ f) (index s) \<and>
         lit ''test-detection/'' @ f \<notin> set (index s') \<and>
         (index s = [] \<longrightarrow> index s' = []) \<and>
         last (filter is_git (new_events s s')) = Git (Index_remove (lit ''test-detection/'' @ f)) None"
proof -
  let ?rel = "lit ''test-detection/'' @ f"
  from test_commit_result [OF assms] obtain k tail where
    ev: "events s' = events s @ map (\<lambda>c. Git c None) (take k (probe_calls f)) @ tail" and
    c: "(k = 5 \<and> tail = [Log_error (lit ''Fail: Secret not detected for '' @ f)] \<and>
         index s' = removeAll ?rel (index s))
      \<or> (k < 5 \<and> (\<exists>x. tail = Git (probe_calls f ! k) (Some x) # handler_log f x
                     @ [Git (Index_remove ?rel) None] \<and>
            index s' = removeAll ?rel (index s)))"
    by blast
  have n: "new_events s s' = map (\<lambda>c. Git c None) (take k (probe_calls f)) @ tail"
    using new_events_append [OF ev] .
  from c have ix: "index s' = removeAll ?rel (index s)" by blast
  from c have "last (filter is_git (new_events s s')) = Git (Index_remove ?rel) None"
  proof
    assume "k = 5 \<and> tail = [Log_error (lit ''Fail: Secret not detected for '' @ f)] \<and>
         index s' = removeAll ?rel (index s)"
    then show ?thesis unfolding n by (simp add: probe_calls_def)
  next
    assume "k < 5 \<and> (\<exists>x. tail = Git (probe_calls f ! k) (Some x) # handler_log f x
                     @ [Git (Index_remove ?rel) None] \<and>
            index s' = removeAll ?rel (index s))"
    then show ?thesis unfolding n by auto
  qed
  with ix show ?thesis by auto
qed

theorem test_commit_unstages_witness:
  "test_commit (example_env git_ok []) (lit ''commits/a.py'')
       (empty_state\<lparr>index := []\<rparr>)
     = (Inr False, snd (test_commit (example_env git_ok []) (lit ''commits/a.py'')
                          (empty_state\<lparr>index := []\<rparr>))) \<and>
   index (snd (test_commit (example_env git_ok []) (lit ''commits/a.py'')
                  (empty_state\<lparr>index := []\<rparr>))) = [] \<and>
   test_commit (example_env (git_hook []) []) (lit ''commits/a.py'')
       (empty_state\<lparr>index := []\<rparr>)
     = (Inr True, snd (test_commit (example_env (git_hook []) []) (lit ''commits/a.py'')
                          (empty_state\<lparr>index := []\<rparr>))) \<and>
   index (snd (test_commit (example_env (git_hook []) []) (lit ''commits/a.py'')
                  (empty_state\<lparr>index := []\<rparr>))) = [] \<and>
   test_commit (example_env git_add_fails []) (lit ''commits/a.py'')
       (empty_state\<lparr>index := []\<rparr>)
     = (Inr False, snd (test_commit (example_env git_add_fails []) (lit ''commits/a.py'')
                          (empty_state\<lparr>index := []\<rparr>))) \<and>
   index (snd (test_commit (example_env git_add_fails []) (lit ''commits/a.py'')
                  (empty_state\<lparr>index := []\<rparr>))) = []"
proof -
  let ?s = "empty_state\<lparr>index := []\<rparr>"
  let ?f = "lit ''commits/a.py''"
  have i: "index ?s = []" by simp
  have a: "fst (test_commit (example_env git_ok []) ?f ?s) = Inr False"
    by (simp add: probe_eval git_ok_def)
  have b: "fst (test_commit (example_env (git_hook []) []) ?f ?s) = Inr True"
    by (simp add: probe_eval git_hook_def lit_def)
  have c: "fst (test_commit (example_env git_add_fails []) ?f ?s) = Inr False"
    by (simp add: probe_eval git_add_fails_def)
  have a': "test_commit (example_env git_ok []) ?f ?s
      = (Inr False, snd (test_commit (example_env git_ok []) ?f ?s))"
    using a by (metis prod.collapse)
  have b': "test_commit (example_env (git_hook []) []) ?f ?s
      = (Inr True, snd (test_commit (example_env (git_hook []) []) ?f ?s))"
    using b by (metis prod.collapse)
  have c': "test_commit (example_env git_add_fails []) ?f ?s
      = (Inr False, snd (test_commit (example_env git_add_fails []) ?f ?s))"
    using c by (metis prod.collapse)
  from test_commit_unstages [OF a'] test_commit_unstages [OF b'] test_commit_unstages [OF c'] i
  have "index (snd (test_commit (example_env git_ok []) ?f ?s)) = []"
       "index (snd (test_commit (example_env (git_hook []) []) ?f ?s)) = []"
       "index (snd (test_commit (example_env git_add_fails []) ?f ?s)) = []"
    by blast+
  with a' b' c' show ?thesis by blast
qed

section \<open>The teardown\<close>

text \<open>
  C8 (as amended). \<open>_delete_test_branch\<close> attempts its steps in order (hard reset to
  restore the ignore file, head reference back to the parent, deletion of the branch)
  and stops at the first step that raises: the exception goes to the caller, the steps
  after it are not attempted and nothing is logged. When no step raises, the three
  steps run once each.
\<close>

theorem delete_test_branch_stops_at_failure:
  assumes "delete_test_branch e parent_branch branch_name s = (r, s')"
  shows "\<exists>k \<le> 3.
           new_events s s'
             = map (\<lambda>c. Git c None) (take k (teardown_calls parent_branch branch_name))
               @ (case r of Inr u \<Rightarrow> []
                  | Inl x \<Rightarrow> [Git (teardown_calls parent_branch branch_name ! k) (Some x)]) \<and>
           (case r of Inr u \<Rightarrow> k = 3 | Inl x \<Rightarrow> k < 3)"
proof -
  let ?cs = "teardown_calls parent_branch branch_name"
  have "run_calls e ?cs s = (r, s')"
    using assms by (simp add: delete_test_branch_calls teardown_calls_def)
  from run_calls_result [OF this] obtain k where "k \<le> length ?cs"
    "case r of
       Inr u \<Rightarrow> k = length ?cs \<and> events s' = events s @ map (\<lambda>c. Git c None) ?cs
     | Inl x \<Rightarrow> k < length ?cs \<and>
         events s' = events s @ map (\<lambda>c. Git c None) (take k ?cs) @ [Git (?cs ! k) (Some x)]"
    by blast
  moreover have "length ?cs = 3" by (simp add: teardown_calls_def)
  ultimately show ?thesis
    by (intro exI [of _ k]) (auto simp: new_events_def split: sum.splits)
qed

theorem delete_test_branch_stops_at_failure_witness:
  "fst (delete_test_branch (example_env git_ok []) (lit ''0a1b2c3'') (lit ''detect_test_x'') empty_state)
     = Inr () \<and>
   new_events empty_state
     (snd (delete_test_branch (example_env git_ok []) (lit ''0a1b2c3'') (lit ''detect_test_x'') empty_state))
     = map (\<lambda>c. Git c None) (teardown_calls (lit ''0a1b2c3'') (lit ''detect_test_x''))"
proof -
  let ?p = "delete_test_branch (example_env git_ok []) (lit ''0a1b2c3'') (lit ''detect_test_x'') empty_state"
  have r: "fst ?p = Inr ()"
    by (simp add: delete_test_branch_def restore_ignore_file_def probe_eval git_ok_def)
  have "?p = (fst ?p, snd ?p)" by simp
  from delete_test_branch_stops_at_failure [OF this] r show ?thesis
    by (auto simp: teardown_calls_def)
qed

theorem delete_test_branch_abandons_counterexample:
  "delete_test_branch (example_env git_reset_fails []) (lit ''0a1b2c3'') (lit ''detect_test_x'')
       empty_state
     = (Inl GitCommandError,
        empty_state\<lparr>events := [Git (Reset_hard (lit ''HEAD^1'')) (Some GitCommandError)]\<rparr>)"
  by (simp add: delete_test_branch_def restore_ignore_file_def probe_eval git_reset_fails_def)

section \<open>The orchestrator\<close>

lemma bind_return: "bind (return v) f = f v"
  by (rule ext) (simp add: bind_def return_def)

lemma bind_seq: "bind (seq a b) f = seq a (bind b f)"
  by (rule ext) (simp add: seq_def bind_def split: prod.splits sum.splits)

lemma seq_bind: "seq (bind a f) c = bind a (\<lambda>x. seq (f x) c)"
  by (rule ext) (simp add: seq_def bind_def split: prod.splits sum.splits)

lemma branch_calls:
  "branch e =
     seq cleanup_files
    (seq (run_calls e (setup_calls e))
         (return (head_hexsha e, lit ''detect_test_'' @ utc_timestamp e)))"
  by (simp add: branch_def load_repo_def checkout_test_branch_def remove_ignore_file_def
        setup_calls_def Let_def bind_seq bind_return seq_assoc return_seq)

lemma cleanup_files_events:
  "cleanup_files s = (r, s') \<Longrightarrow> events s' = events s \<and> index s' = index s"
  by (auto simp: cleanup_files_def split: prod.splits)

lemma populate_templates_events:
  "populate_templates tpl src sty v tests s = (r, s') \<Longrightarrow>
     events s' = events s \<and> index s' = index s \<and>
     (\<exists>new. r = Inr (tests @ new) \<and> (\<forall>t \<in> set new. outcome t = None \<and> detected t = None))"
proof (induction tpl src sty v tests s rule: populate_templates.induct)
  case (1 src sty v tests s)
  then show ?case by auto
next
  case (2 template content rest src sty v tests s)
  from "2.prems" have
    "populate_templates rest src sty v
       (tests @ [\<lparr>source = src, secret_type = sty,
                  test_file = generate_temp_file_name src sty template,
                  file_type = last (str_split 46 (generate_temp_file_name src sty template)),
                  detected = None, outcome = None\<rparr>])
       (s\<lparr>files := write_file (generate_temp_file_name src sty template) (render content v) (files s)\<rparr>)
     = (r, s')"
    by (simp add: Let_def)
  from "2.IH" [OF refl refl refl this] show ?case by auto
qed

lemma build_loop_events:
  "build_loop tpl params tests s = (r, s') \<Longrightarrow>
     events s' = events s \<and> index s' = index s \<and>
     (\<forall>ts. r = Inr ts \<longrightarrow> (\<exists>new. ts = tests @ new \<and> (\<forall>t \<in> set new. outcome t = None \<and> detected t = None)))"
proof (induction tpl params tests s rule: build_loop.induct)
  case (1 templates tests s)
  then show ?case by auto
next
  case (2 templates name v params tests s)
  show ?case
  proof (cases "butlast (str_split 47 name) = []")
    case True
    with "2.prems" show ?thesis by (auto simp: Let_def)
  next
    case False
    obtain r1 s1 where p: "populate_templates templates (last (butlast (str_split 47 name)))
        (last (str_split 47 name)) v tests s = (r1, s1)"
      by (cases "populate_templates templates (last (butlast (str_split 47 name)))
        (last (str_split 47 name)) v tests s") auto
    from populate_templates_events [OF p] obtain new where
      n: "events s1 = events s" "index s1 = index s" "r1 = Inr (tests @ new)"
         "\<forall>t \<in> set new. outcome t = None \<and> detected t = None"
      by blast
    from "2.prems" False p n have b: "build_loop templates params (tests @ new) s1 = (r, s')"
      by (simp add: Let_def bind_def)
    from "2.IH" [OF refl refl refl False b] n show ?thesis
      by auto
  qed
qed

lemma probe_calls_quiet: "c \<in> set (probe_calls f) \<Longrightarrow> \<not> is_teardown (Git c x)"
  by (auto simp: probe_calls_def)

lemma setup_calls_quiet: "c \<in> set (setup_calls e) \<Longrightarrow> \<not> is_teardown (Git c x)"
  by (auto simp: setup_calls_def)

lemma filter_teardown_ok:
  "(\<And>c x. c \<in> set cs \<Longrightarrow> \<not> is_teardown (Git c x)) \<Longrightarrow>
   filter is_teardown (map (\<lambda>c. Git c None) cs) = []"
  by (induction cs) auto

lemma filter_teardown_handler_log: "filter is_teardown (handler_log f x) = []"
  by (simp add: handler_log_def)

lemma test_commit_quiet:
  assumes "test_commit e f s = (r, s')"
  shows "\<exists>new. events s' = events s @ new \<and> filter is_teardown new = []"
proof -
  from test_commit_result [OF assms] obtain k tail where k: "k \<le> 5" and
    ev: "events s' = events s @ map (\<lambda>c. Git c None) (take k (probe_calls f)) @ tail" and
    c: "tail = [Log_error (lit ''Fail: Secret not detected for '' @ f)]
      \<or> (k < 5 \<and> (\<exists>x. tail = [Git (probe_calls f ! k) (Some x)]))
      \<or> (k < 5 \<and> (\<exists>x z. tail = Git (probe_calls f ! k) (Some x) # handler_log f x
                     @ [Git (Index_remove (lit ''test-detection/'' @ f)) z]))"
    by blast
  have "filter is_teardown (map (\<lambda>c. Git c None) (take k (probe_calls f))) = []"
    by (rule filter_teardown_ok) (auto dest: in_set_takeD probe_calls_quiet)
  moreover have "filter is_teardown tail = []"
  proof -
    have nth: "\<not> is_teardown (Git (probe_calls f ! k) x)" if "k < 5" for x
      using that probe_calls_quiet [of "probe_calls f ! k" f x]
      by (simp add: length_probe_calls)
    from c show ?thesis
      by (auto simp: nth filter_teardown_handler_log)
  qed
  ultimately show ?thesis using ev by (intro exI [of _ "map (\<lambda>c. Git c None) (take k (probe_calls f)) @ tail"]) simp
qed

lemma probe_loop_quiet:
  assumes "check_probe_loop e ts status s = (r, s')"
  shows "\<exists>new. events s' = events s @ new \<and> filter is_teardown new = []"
  using assms
proof (induction ts arbitrary: status s r s')
  case Nil
  then show ?case by auto
next
  case (Cons t ts)
  show ?case
  proof (cases "contains (lit ''README.md'') (test_file t)")
    case True
    obtain r1 s1 where l: "check_probe_loop e ts status s = (r1, s1)"
      by (cases "check_probe_loop e ts status s") auto
    with True Cons.prems have "s' = s1"
      by (auto split: sum.splits prod.splits)
    with Cons.IH [OF l] show ?thesis by simp
  next
    case False
    obtain r0 s0 where p: "test_commit e (test_file t) s = (r0, s0)"
      by (cases "test_commit e (test_file t) s") auto
    from test_commit_quiet [OF p] obtain new0 where
      n0: "events s0 = events s @ new0" "filter is_teardown new0 = []" by blast
    show ?thesis
    proof (cases r0)
      case (Inl x)
      with False p Cons.prems have "s' = s0" by (simp add: Let_def)
      with n0 show ?thesis by auto
    next
      case (Inr d)
      let ?oc = "if d then Passed else Failed"
      obtain r1 s1 where l: "check_probe_loop e ts
            (status(?oc := status ?oc @ [test_file t])) s0 = (r1, s1)"
        by (cases "check_probe_loop e ts (status(?oc := status ?oc @ [test_file t])) s0") auto
      with False p Inr Cons.prems have "s' = s1"
        by (auto simp: Let_def split: sum.splits prod.splits)
      with Cons.IH [OF l] n0 show ?thesis by auto
    qed
  qed
qed

lemma probe_loop_counts:
  assumes "check_probe_loop e ts status s = (Inr (status', ts'), s')"
    and "\<forall>t \<in> set ts. outcome t = None"
  shows "length (status' oc) = length (status oc) + length (filter (\<lambda>t. outcome t = Some oc) ts')"
  using assms
proof (induction ts arbitrary: status s status' ts' s')
  case Nil
  then show ?case by simp
next
  case (Cons t ts)
  show ?case
  proof (cases "contains (lit ''README.md'') (test_file t)")
    case True
    with Cons.prems obtain us where
      r: "check_probe_loop e ts status s = (Inr (status', us), s')" and u: "ts' = t # us"
      by (auto split: prod.splits sum.splits)
    from Cons.IH [OF r] Cons.prems(2) u show ?thesis by simp
  next
    case False
    with Cons.prems obtain d s1 us where
      r: "check_probe_loop e ts
            (status((if d then Passed else Failed) := status (if d then Passed else Failed) @ [test_file t])) s1
          = (Inr (status', us), s')"
      and u: "ts' = t\<lparr>detected := Some d, outcome := Some (if d then Passed else Failed)\<rparr> # us"
      by (auto simp: Let_def split: prod.splits sum.splits)
    from Cons.IH [OF r] Cons.prems(2) u show ?thesis
      by (cases oc; cases d) auto
  qed
qed

lemma branch_result:
  assumes "branch e s = (r, s')"
  shows "(\<exists>new. events s' = events s @ new \<and> filter is_teardown new = []) \<and>
         (\<forall>v. r = Inr v \<longrightarrow> v = (head_hexsha e, lit ''detect_test_'' @ utc_timestamp e))"
proof -
  obtain rc sc where c: "cleanup_files s = (rc, sc)"
    by (cases "cleanup_files s") auto
  from cleanup_files_events [OF c] have ec: "events sc = events s" by simp
  show ?thesis
  proof (cases rc)
    case (Inl x)
    with c assms have "r = Inl x" "s' = sc"
      by (simp_all add: branch_calls seq_Inl)
    with ec show ?thesis by simp
  next
    case (Inr u)
    obtain rs ss where rs: "run_calls e (setup_calls e) sc = (rs, ss)"
      by (cases "run_calls e (setup_calls e) sc") auto
    from run_calls_result [OF rs] obtain k where
      k: "case rs of
            Inr u \<Rightarrow> k = length (setup_calls e) \<and>
              events ss = events sc @ map (\<lambda>c. Git c None) (setup_calls e)
          | Inl x \<Rightarrow> k < length (setup_calls e) \<and>
              events ss = events sc @ map (\<lambda>c. Git c None) (take k (setup_calls e))
                            @ [Git (setup_calls e ! k) (Some x)]"
      by blast
    have q: "filter is_teardown (map (\<lambda>c. Git c None) (take k (setup_calls e))) = []"
      by (rule filter_teardown_ok) (auto dest: in_set_takeD setup_calls_quiet)
    have q': "filter is_teardown (map (\<lambda>c. Git c None) (setup_calls e)) = []"
      by (rule filter_teardown_ok) (auto dest: setup_calls_quiet)
    show ?thesis
    proof (cases rs)
      case (Inl x)
      with c Inr rs assms have "r = Inl x" "s' = ss"
        by (simp_all add: branch_calls seq_Inr seq_Inl)
      moreover from Inl k have "k < length (setup_calls e)"
        "events ss = events sc @ map (\<lambda>c. Git c None) (take k (setup_calls e))
                            @ [Git (setup_calls e ! k) (Some x)]"
        by simp_all
      moreover from this(1) have "\<not> is_teardown (Git (setup_calls e ! k) (Some x))"
        using setup_calls_quiet [of "setup_calls e ! k" e "Some x"] by simp
      ultimately show ?thesis using ec q by simp
    next
      case (Inr u')
      with c \<open>rc = Inr u\<close> rs assms have
        "r = Inr (head_hexsha e, lit ''detect_test_'' @ utc_timestamp e)" "s' = ss"
        by (simp_all add: branch_calls seq_Inr return_def)
      moreover from Inr k have "events ss = events sc @ map (\<lambda>c. Git c None) (setup_calls e)"
        by simp
      ultimately show ?thesis using ec q' by simp
    qed
  qed
qed

lemma until_teardown_result:
  assumes "check_until_teardown e tpl s = (r, s1)"
  shows "(\<exists>new. events s1 = events s @ new \<and> filter is_teardown new = []) \<and>
         (\<forall>refs status tests. r = Inr (refs, status, tests) \<longrightarrow>
            refs = (head_hexsha e, lit ''detect_test_'' @ utc_timestamp e) \<and>
            (\<forall>oc. length (status oc) = length (filter (\<lambda>t. outcome t = Some oc) tests)))"
proof -
  obtain rc sc where c: "cleanup_files s = (rc, sc)"
    by (cases "cleanup_files s") auto
  from cleanup_files_events [OF c] have ec: "events sc = events s" by simp
  show ?thesis
  proof (cases rc)
    case (Inl x)
    with c assms have "r = Inl x" "s1 = sc"
      by (simp_all add: check_until_teardown_def seq_Inl)
    with ec show ?thesis by simp
  next
    case (Inr u)
    with c assms have p: "check_probing e tpl sc = (r, s1)"
      by (simp add: check_until_teardown_def seq_Inr)
    obtain rb sb where b: "branch e sc = (rb, sb)"
      by (cases "branch e sc") auto
    from branch_result [OF b] obtain newb where
      nb: "events sb = events sc @ newb" "filter is_teardown newb = []" and
      vb: "\<forall>v. rb = Inr v \<longrightarrow> v = (head_hexsha e, lit ''detect_test_'' @ utc_timestamp e)"
      by blast
    show ?thesis
    proof (cases rb)
      case (Inl x)
      with b p have "r = Inl x" "s1 = sb"
        by (simp_all add: check_probing_def bind_Inl)
      with ec nb show ?thesis by simp
    next
      case (Inr refs)
      with vb have sb: "refs = (head_hexsha e, lit ''detect_test_'' @ utc_timestamp e)"
        by simp
      obtain rt st where t: "build_commitable_temp_files e tpl [] sb = (rt, st)"
        by (cases "build_commitable_temp_files e tpl [] sb") auto
      from build_loop_events [OF t [unfolded build_commitable_temp_files_def]] have
        et: "events st = events sb" and
        nt: "\<forall>ts. rt = Inr ts \<longrightarrow> (\<forall>t \<in> set ts. outcome t = None)"
        by auto
      from b Inr t p have p2: "bind (\<lambda>s. (rt, st))
             (\<lambda>tests. bind (check_probe_loop e tests (\<lambda>oc. [])) (\<lambda>probed. return (refs, probed))) sb
           = (r, s1)"
        by (simp add: check_probing_def bind_def)
      show ?thesis
      proof (cases rt)
        case (Inl x)
        with p2 have "r = Inl x" "s1 = st" by (simp_all add: bind_def)
        with ec nb et show ?thesis by simp
      next
        case (Inr tests0)
        obtain rl sl where l: "check_probe_loop e tests0 (\<lambda>oc. []) st = (rl, sl)"
          by (cases "check_probe_loop e tests0 (\<lambda>oc. []) st") auto
        from probe_loop_quiet [OF l] obtain newl where
          nl: "events sl = events st @ newl" "filter is_teardown newl = []" by blast
        have ev: "events sl = events s @ (newb @ newl)" "filter is_teardown (newb @ newl) = []"
          using ec nb et nl by simp_all
        show ?thesis
        proof (cases rl)
          case (Inl x)
          with p2 Inr l have "r = Inl x" "s1 = sl" by (simp_all add: bind_def)
          with ev show ?thesis by blast
        next
          case (Inr probed)
          with p2 \<open>rt = Inr tests0\<close> l have r: "r = Inr (refs, probed)" "s1 = sl"
            by (simp_all add: bind_def return_def)
          obtain status tests where pr: "probed = (status, tests)" by (cases probed) auto
          from nt \<open>rt = Inr tests0\<close> have "\<forall>t \<in> set tests0. outcome t = None" by simp
          from probe_loop_counts [OF l [unfolded Inr pr] this]
          have "\<forall>oc. length (status oc) = length (filter (\<lambda>t. outcome t = Some oc) tests)"
            by simp
          with r pr sb ev show ?thesis by blast
        qed
      qed
    qed
  qed
qed

lemma check_unfold:
  "check e tpl s =
     (if aws_key_present e
      then (case check_until_teardown e tpl s of
              (Inl x, s1) \<Rightarrow> (Inl x, s1)
            | (Inr ((parent_branch, branch_name), status, tests), s1) \<Rightarrow>
                seq (delete_test_branch e parent_branch branch_name)
               (seq (call e Head_hexsha)
                    (\<lambda>s. case check_report tests status of
                            Inl x \<Rightarrow> (Inl x, s)
                          | Inr r \<Rightarrow> (Inr (Some r), s))) s1)
      else (case cleanup_files s of (Inl x, s1) \<Rightarrow> (Inl x, s1) | (Inr u, s1) \<Rightarrow> (Inr None, s1)))"
  by (simp add: check_def check_until_teardown_def seq_def bind_def return_def
        split: prod.splits sum.splits)

lemma delete_test_branch_events:
  assumes "delete_test_branch e pb bn s = (r, s')"
  shows "\<exists>new. events s' = events s @ new \<and> filter is_teardown new = new \<and> new \<noteq> [] \<and>
           (r = Inr () \<longrightarrow> new = map (\<lambda>c. Git c None) (teardown_calls pb bn))"
proof -
  let ?cs = "[Reset_hard (lit ''HEAD^1''), Set_head_reference pb, Delete_head bn]"
  from assms have "run_calls e ?cs s = (r, s')"
    by (simp add: delete_test_branch_calls)
  from run_calls_result [OF this] obtain k where k0: "k \<le> length ?cs"
    "case r of
       Inr u \<Rightarrow> k = length ?cs \<and> events s' = events s @ map (\<lambda>c. Git c None) ?cs
     | Inl x \<Rightarrow> k < length ?cs \<and>
         events s' = events s @ map (\<lambda>c. Git c None) (take k ?cs) @ [Git (?cs ! k) (Some x)]"
    by blast
  have l3: "length ?cs = 3" by simp
  note k = k0 [unfolded l3]
  show ?thesis
  proof (cases r)
    case (Inr u)
    with k show ?thesis by (auto simp: teardown_calls_def)
  next
    case (Inl x)
    with k have "k < 3" and ev: "events s' = events s @ map (\<lambda>c. Git c None) (take k ?cs) @ [Git (?cs ! k) (Some x)]"
      by simp_all
    then consider "k = 0" | "k = 1" | "k = 2" by linarith
    then show ?thesis using ev Inl by cases auto
  qed
qed

lemmas run_eval = check_def check_probing_def check_until_teardown_def branch_def cleanup_files_def
  cleanup_def glob_star_def load_repo_def checkout_test_branch_def remove_ignore_file_def
  delete_test_branch_def restore_ignore_file_def build_commitable_temp_files_def
  test_commit_def try_commit_def seq_def bind_def return_def log_error_def log_debug_def call_def
  example_env_def empty_state_def Let_def listed_in_def os_remove_def write_file_def
  check_report_def check_overall_def true_div_def setdefault_def bump_def

lemmas str_eval = generate_temp_file_name_def lit_def str_split_def is_word_sep_def replace_def
  title_def is_cased_def is_upper_def is_lower_def to_lower_def to_upper_def lower_def render_def
  single_line_def multi_line_def unicode_escape_def escape_char_def
  single_line_placeholder_def multi_line_placeholder_def

lemma run_calls_ok:
  assumes "\<forall>h c. git e h c = None"
  shows "run_calls e cs s
         = (Inr (), s\<lparr>index := fold index_effect cs (index s),
                       events := events s @ map (\<lambda>c. Git c None) cs\<rparr>)"
proof (induction cs arbitrary: s)
  case Nil
  then show ?case by (simp add: return_def)
next
  case (Cons c cs)
  have "call e c s = (Inr (), s\<lparr>index := index_effect c (index s),
                                  events := events s @ [Git c None]\<rparr>)"
    using assms by (simp add: call_def)
  then show ?case by (simp add: seq_Inr Cons.IH)
qed

text \<open>
  C1 (as amended). In a run of \<open>check\<close> the teardown is never entered more than once.
  With the credential present, when everything before it (cleanup, branch setup,
  fixture generation and every probe) returns normally, the teardown events of the run
  are exactly those of one execution of \<open>_delete_test_branch\<close>, which is entered
  once, and a run that ends with a report has made the three teardown calls once each,
  all successful. When something before the teardown raises, a probe included, the
  exception leaves \<open>check\<close> and no teardown step is attempted. Without the credential
  there is no test branch and no teardown step.
\<close>

theorem check_teardown:
  assumes "check e tpl s = (r, s')"
  shows "(\<not> aws_key_present e \<longrightarrow> filter is_teardown (new_events s s') = []) \<and>
   (aws_key_present e \<longrightarrow>
     (case check_until_teardown e tpl s of
        (Inl x, s1) \<Rightarrow> r = Inl x \<and> filter is_teardown (new_events s s') = []
      | (Inr v, s1) \<Rightarrow>
          filter is_teardown (new_events s s')
            = new_events s1 (snd (delete_test_branch e (head_hexsha e)
                                    (lit ''detect_test_'' @ utc_timestamp e) s1)) \<and>
          new_events s1 (snd (delete_test_branch e (head_hexsha e)
                                (lit ''detect_test_'' @ utc_timestamp e) s1)) \<noteq> [] \<and>
          (\<forall>rep. r = Inr (Some rep) \<longrightarrow>
             filter is_teardown (new_events s s')
               = map (\<lambda>c. Git c None)
                   (teardown_calls (head_hexsha e) (lit ''detect_test_'' @ utc_timestamp e)))))"
proof (cases "aws_key_present e")
  case False
  obtain rc sc where c: "cleanup_files s = (rc, sc)"
    by (cases "cleanup_files s") auto
  with False assms have "s' = sc"
    by (auto simp: check_unfold split: sum.splits)
  with cleanup_files_events [OF c] have "new_events s s' = []"
    by (simp add: new_events_def)
  with False show ?thesis by simp
next
  case True
  let ?pb = "head_hexsha e" and ?bn = "lit ''detect_test_'' @ utc_timestamp e"
  obtain rp s1 where p: "check_until_teardown e tpl s = (rp, s1)"
    by (cases "check_until_teardown e tpl s") auto
  from until_teardown_result [OF p] obtain newp where
    np: "events s1 = events s @ newp" "filter is_teardown newp = []" and
    vp: "\<forall>refs status tests. rp = Inr (refs, status, tests) \<longrightarrow> refs = (?pb, ?bn)"
    by blast
  show ?thesis
  proof (cases rp)
    case (Inl x)
    with True p assms have "r = Inl x" "s' = s1"
      by (simp_all add: check_unfold)
    with np have "r = Inl x" "filter is_teardown (new_events s s') = []"
      by (simp_all add: new_events_def)
    with True p Inl show ?thesis by simp
  next
    case (Inr v)
    obtain refs status tests where v: "v = (refs, status, tests)"
      by (cases v) auto
    with vp Inr have sb: "refs = (?pb, ?bn)" by simp
    let ?fin = "\<lambda>s. case check_report tests status of
                        Inl x \<Rightarrow> (Inl x, s)
                      | Inr r \<Rightarrow> (Inr (Some r), s)"
    from True p Inr v sb assms have
      c: "seq (delete_test_branch e ?pb ?bn) (seq (call e Head_hexsha) ?fin) s1 = (r, s')"
      by (simp add: check_unfold)
    obtain rd sd where d: "delete_test_branch e ?pb ?bn s1 = (rd, sd)"
      by (cases "delete_test_branch e ?pb ?bn s1") auto
    from delete_test_branch_events [OF d] obtain newd where
      nd: "events sd = events s1 @ newd" "filter is_teardown newd = newd" "newd \<noteq> []"
          "rd = Inr () \<longrightarrow> newd = map (\<lambda>c. Git c None) (teardown_calls ?pb ?bn)"
      by blast
    have del: "new_events s1 (snd (delete_test_branch e ?pb ?bn s1)) = newd"
      using d nd(1) by (simp add: new_events_def)
    have "filter is_teardown (new_events s s') = newd \<and>
          (\<forall>rep. r = Inr (Some rep) \<longrightarrow> rd = Inr ())"
    proof (cases rd)
      case (Inl x)
      with c d have "r = Inl x" "s' = sd" by (simp_all add: seq_Inl)
      with np nd show ?thesis by (simp add: new_events_def)
    next
      case (Inr u)
      obtain rh sh where h: "call e Head_hexsha sd = (rh, sh)"
        by (cases "call e Head_hexsha sd") auto
      then obtain x where eh: "events sh = events sd @ [Git Head_hexsha x]"
        by (auto simp: call_def split: option.splits)
      from c d Inr h have "s' = sh"
        by (cases rh) (auto simp: seq_Inr seq_Inl split: sum.splits)
      with np nd eh Inr show ?thesis by (simp add: new_events_def)
    qed
    with nd(3,4) del True p Inr show ?thesis by auto
  qed
qed

theorem check_teardown_witness:
  "aws_key_present (example_env git_ok [(lit ''/p/s/k'', lit ''v'')]) \<and>
   filter is_teardown
     (new_events empty_state
        (snd (check (example_env git_ok [(lit ''/p/s/k'', lit ''v'')]) [(lit ''a.py'', lit ''x'')]
                empty_state)))
   = map (\<lambda>c. Git c None) (teardown_calls (lit ''0a1b2c3'') (lit ''detect_test_2021-02-03_0405''))"
proof -
  let ?e = "example_env git_ok [(lit ''/p/s/k'', lit ''v'')]"
  let ?t = "[(lit ''a.py'', lit ''x'')]"
  let ?c = "check ?e ?t empty_state"
  have k: "aws_key_present ?e" by (simp add: example_env_def)
  have ok: "\<forall>h c. git ?e h c = None" by (simp add: example_env_def git_ok_def)
  have hx: "head_hexsha ?e = lit ''0a1b2c3''"
    "lit ''detect_test_'' @ utc_timestamp ?e = lit ''detect_test_2021-02-03_0405''"
    by (simp_all add: example_env_def lit_def)
  have u: "\<not> isl (fst (check_until_teardown ?e ?t empty_state))"
    by (simp add: run_eval str_eval git_ok_def)
  then obtain v s1 where p: "check_until_teardown ?e ?t empty_state = (Inr v, s1)"
    by (cases "check_until_teardown ?e ?t empty_state"; cases "fst (check_until_teardown ?e ?t empty_state)") auto
  have "?c = (fst ?c, snd ?c)" by simp
  from check_teardown [OF this] k p have
    "filter is_teardown (new_events empty_state (snd ?c))
       = new_events s1 (snd (delete_test_branch ?e (head_hexsha ?e)
                                    (lit ''detect_test_'' @ utc_timestamp ?e) s1))"
    by simp
  also have "\<dots> = map (\<lambda>c. Git c None)
      (teardown_calls (head_hexsha ?e) (lit ''detect_test_'' @ utc_timestamp ?e))"
    unfolding delete_test_branch_calls run_calls_ok [OF ok]
    by (simp add: new_events_def teardown_calls_def)
  finally show ?thesis using k hx by simp
qed

theorem check_skips_teardown_counterexample:
  "fst (check (example_env git_missing_path [(lit ''/p/s/k'', lit ''v'')]) [(lit ''a.py'', lit ''x'')]
          empty_state) = Inl GitCommandError \<and>
   filter is_teardown
     (events (snd (check (example_env git_missing_path [(lit ''/p/s/k'', lit ''v'')])
                     [(lit ''a.py'', lit ''x'')] empty_state))) = []"
  by (simp add: run_eval str_eval git_missing_path_def)

section \<open>The report\<close>

lemma check_overall_result:
  "check_overall status =
     (if status Passed = [] \<and> status Failed = [] then Inl ZeroDivisionError
      else Inr \<lparr>total = length (status Passed) + length (status Failed),
               passed = length (status Passed), failed = length (status Failed),
               success_rate = of_nat (100 * length (status Passed))
                              / of_nat (length (status Passed) + length (status Failed))\<rparr>)"
  by (simp add: check_overall_def true_div_def Let_def)




lemma run_calls_calm:
  assumes "\<forall>h. \<forall>c \<in> set cs. git e h c = None"
  shows "\<exists>s'. run_calls e cs s = (Inr (), s') \<and> files s' = files s"
  using assms
proof (induction cs arbitrary: s)
  case Nil
  then show ?case by (simp add: return_def)
next
  case (Cons c cs)
  let ?s1 = "s\<lparr>index := index_effect c (index s), events := events s @ [Git c None]\<rparr>"
  have "call e c s = (Inr (), ?s1)"
    using Cons.prems by (simp add: call_def)
  moreover from Cons.IH [of ?s1] Cons.prems obtain s' where
    "run_calls e cs ?s1 = (Inr (), s')" "files s' = files ?s1" by auto
  ultimately show ?case by (simp add: seq_Inr)
qed

lemma cleanup_files_ok:
  assumes "distinct (map fst (files s))"
  shows "\<exists>s'. cleanup_files s = (Inr (), s') \<and> distinct (map fst (files s'))"
  using assms by (simp add: cleanup_files_def cleanup_removes distinct_map_filter)

lemma probe_loop_total:
  assumes "\<And>f s. fst (test_commit e f s) = Inr (verdict f)"
    and "\<forall>t \<in> set ts. \<not> contains (lit ''README.md'') (test_file t)"
  shows "\<exists>s'. check_probe_loop e ts status s
           = (Inr (\<lambda>oc. status oc @ status_of verdict ts oc, map (with_verdict verdict) ts), s')"
  using assms(2)
proof (induction ts arbitrary: status s)
  case Nil
  then show ?case by (simp add: status_of_def)
next
  case (Cons t ts)
  let ?d = "verdict (test_file t)"
  let ?oc = "if ?d then Passed else Failed"
  let ?status = "status(?oc := status ?oc @ [test_file t])"
  obtain s0 where p: "test_commit e (test_file t) s = (Inr ?d, s0)"
    using assms(1) [of "test_file t" s] by (cases "test_commit e (test_file t) s") auto
  have rest: "\<forall>t \<in> set ts. \<not> contains (lit ''README.md'') (test_file t)"
    using Cons.prems by simp
  from Cons.IH [OF rest, of ?status s0] obtain s' where
    l: "check_probe_loop e ts ?status s0
         = (Inr (\<lambda>oc. ?status oc @ status_of verdict ts oc, map (with_verdict verdict) ts), s')"
    by blast
  have "(\<lambda>oc. ?status oc @ status_of verdict ts oc)
        = (\<lambda>oc. status oc @ status_of verdict (t # ts) oc)"
    by (rule ext) (simp add: status_of_def)
  with p l Cons.prems show ?case
    by (intro exI [of _ s']) (simp add: Let_def with_verdict_def del: fun_upd_apply)
qed

lemma check_runs:
  assumes key: "aws_key_present e"
    and calm: "\<forall>h. \<forall>c \<in> set (setup_calls e)
                        \<union> set (teardown_calls (head_hexsha e) (lit ''detect_test_'' @ utc_timestamp e))
                        \<union> {Head_hexsha}. git e h c = None"
    and probes: "\<And>f s. fst (test_commit e f s) = Inr (verdict f)"
    and files: "distinct (map fst (files s))"
    and built: "\<And>s. fst (build_commitable_temp_files e tpl [] s) = Inr tests"
    and readme: "\<forall>t \<in> set tests. \<not> contains (lit ''README.md'') (test_file t)"
  shows "\<exists>s'. check e tpl s
           = (map_sum id Some (check_report (map (with_verdict verdict) tests) (status_of verdict tests)), s')"
proof -
  let ?pb = "head_hexsha e" and ?bn = "lit ''detect_test_'' @ utc_timestamp e"
  from cleanup_files_ok [OF files] obtain sa where
    a: "cleanup_files s = (Inr (), sa)" "distinct (map fst (files sa))" by blast
  from cleanup_files_ok [OF a(2)] obtain sb where
    b: "cleanup_files sa = (Inr (), sb)" by blast
  from run_calls_calm [of "setup_calls e" e sb] calm obtain sc where
    c: "run_calls e (setup_calls e) sb = (Inr (), sc)" by auto
  have br: "branch e sa = (Inr (?pb, ?bn), sc)"
    by (simp add: branch_calls seq_def bind_def b c return_def)
  obtain sd where d: "build_commitable_temp_files e tpl [] sc = (Inr tests, sd)"
    using built [of sc] by (cases "build_commitable_temp_files e tpl [] sc") auto
  from probe_loop_total [of e verdict tests "\<lambda>oc. []" sd, OF probes readme] obtain se where
    l: "check_probe_loop e tests (\<lambda>oc. []) sd
          = (Inr (status_of verdict tests, map (with_verdict verdict) tests), se)"
    by auto
  have u: "check_until_teardown e tpl s
      = (Inr ((?pb, ?bn), status_of verdict tests, map (with_verdict verdict) tests), se)"
    by (simp add: check_until_teardown_def check_probing_def seq_def bind_def
          a(1) br d l return_def)
  from run_calls_calm [of "teardown_calls ?pb ?bn" e se] calm obtain sf where
    f: "delete_test_branch e ?pb ?bn se = (Inr (), sf)"
    by (auto simp: delete_test_branch_calls teardown_calls_def)
  from calm have "git e (events sf) Head_hexsha = None" by simp
  then obtain sg where g: "call e Head_hexsha sf = (Inr (), sg)"
    by (simp add: call_def)
  show ?thesis
    by (intro exI [of _ sg])
       (simp add: check_unfold key u seq_def bind_def f g split: sum.splits)
qed



lemma ok_probe:
  "\<forall>h c. git e h c = None \<Longrightarrow> fst (test_commit e f s) = Inr False"
  by (simp add: test_commit_def try_commit_def seq_def bind_def return_def log_error_def
        call_def Let_def)



text \<open>
  C2 (as amended). The success-rate computation is not guarded: it raises
  \<open>ZeroDivisionError\<close> exactly when no fixture was probed (passed and failed are both
  0) and raises nothing else. In particular a run with the credential, an empty catalog
  and a repository whose calls all succeed ends with \<open>ZeroDivisionError\<close>.
\<close>

theorem check_overall_unguarded:
  "(check_overall status = Inl ZeroDivisionError
      \<longleftrightarrow> length (status Passed) + length (status Failed) = 0) \<and>
   (\<forall>x. check_overall status = Inl x \<longrightarrow> x = ZeroDivisionError) \<and>
   (aws_key_present e \<and> ssm_params e = [] \<and> (\<forall>h c. git e h c = None) \<and>
    distinct (map fst (files s)) \<longrightarrow>
      fst (check e tpl s) = Inl ZeroDivisionError)"
proof -
  have a: "check_overall status = Inl ZeroDivisionError
      \<longleftrightarrow> length (status Passed) + length (status Failed) = 0"
    by (simp add: check_overall_result)
  have b: "\<forall>x. check_overall status = Inl x \<longrightarrow> x = ZeroDivisionError"
    by (simp add: check_overall_result)
  have c: "fst (check e tpl s) = Inl ZeroDivisionError"
    if h: "aws_key_present e \<and> ssm_params e = [] \<and> (\<forall>h c. git e h c = None) \<and>
      distinct (map fst (files s))"
  proof -
    from h have ok: "\<forall>h c. git e h c = None" by blast
    have built: "\<And>s. fst (build_commitable_temp_files e tpl [] s) = Inr []"
      using h by (simp add: build_commitable_temp_files_def)
    from check_runs [of e "\<lambda>f. False" s tpl "[]"] h ok_probe [OF ok] built
    obtain s' where "check e tpl s
        = (map_sum id Some (check_report (map (with_verdict (\<lambda>f. False)) []) (status_of (\<lambda>f. False) [])), s')"
      by auto
    then show ?thesis
      by (simp add: check_report_def check_overall_result status_of_def)
  qed
  from a b c show ?thesis by blast
qed

theorem check_overall_unguarded_witness:
  "aws_key_present (example_env git_ok []) \<and> ssm_params (example_env git_ok []) = [] \<and>
   distinct (map fst (files empty_state)) \<and>
   check_overall (\<lambda>oc. []) = Inl ZeroDivisionError \<and>
   fst (check (example_env git_ok []) example_templates empty_state) = Inl ZeroDivisionError"
proof -
  have h: "aws_key_present (example_env git_ok []) \<and> ssm_params (example_env git_ok []) = [] \<and>
     (\<forall>h c. git (example_env git_ok []) h c = None) \<and> distinct (map fst (files empty_state))"
    by (simp add: example_env_def git_ok_def empty_state_def)
  note t = check_overall_unguarded [of "\<lambda>oc. []" "example_env git_ok []" empty_state example_templates]
  from t have "check_overall (\<lambda>oc. []) = Inl ZeroDivisionError" by simp
  moreover from t h have "fst (check (example_env git_ok []) example_templates empty_state)
      = Inl ZeroDivisionError" by blast
  ultimately show ?thesis using h by blast
qed

theorem check_empty_catalog_counterexample:
  "fst (check (example_env git_ok []) [(lit ''a.py'', lit ''x'')] empty_state)
     = Inl ZeroDivisionError"
  by (simp add: run_eval git_ok_def lit_def)

text \<open>
  C3. The aggregation loop runs over every fixture, also over one the probing loop
  passed over because its path contains \<open>README.md\<close>: for the template
  \<open>README.md\<close> and one catalog entry the only fixture is
  \<open>commits/commit_s_k_README.md\<close>, it is not probed, and \<open>check\<close> ends with
  \<open>KeyError\<close> at \<open>test["detected"]\<close> instead of a report whose totals agree.
\<close>

theorem check_readme_fixture_key_error:
  "generate_temp_file_name (lit ''s'') (lit ''k'') (lit ''README.md'')
     = lit ''commits/commit_s_k_README.md'' \<and>
   fst (check (example_env git_ok [(lit ''/p/s/k'', lit ''v'')]) [(lit ''README.md'', lit ''x'')]
          empty_state) = Inl KeyError"
  by (simp add: run_eval str_eval git_ok_def)

end
